theory Spec2Isabelle
  imports Complex_Main "HOL-Library.Multiset" "HOL-Library.List_Lexorder" "HOL-Library.Char_ord"
begin

section \<open>Data model\<close>

text \<open>
  The development embeds \<^verbatim>\<open>cpp/src/arrow/compute/kernels/vector_array_sort.cc\<close>:
  the kernels \<^verbatim>\<open>partition_nth_indices\<close> and \<^verbatim>\<open>array_sort_indices\<close>, the
  sorters they dispatch to and the type dispatcher.

  An array is the list of its slots, \<open>None\<close> for a null slot and \<open>Some v\<close> for a valid
  slot holding the logical value \<open>v\<close>; its length and null count are read off the list.
  An index buffer range \<^verbatim>\<open>[indices_begin, indices_end)\<close> is the list of the row indices
  it holds; a pointer into the range is the distance from \<^verbatim>\<open>indices_begin\<close>.
  Where the C++ would read or write outside an array or a buffer (undefined behaviour),
  the embedded function returns \<open>None\<close>.
\<close>

datatype Status = OK | Invalid string | IndexError string | TypeError string

datatype SortOrder = Ascending | Descending

datatype NullPlacement = AtStart | AtEnd

record ArraySortOptions =
  order :: SortOrder
  null_placement :: NullPlacement

record PartitionNthOptions =
  pivot :: int
  nth_null_placement :: NullPlacement

type_synonym 'v Array = "'v option list"

definition null_count :: "'v Array \<Rightarrow> nat" where
  "null_count values = length (filter (\<lambda>x. x = None) values)"

definition IsNull :: "'v Array \<Rightarrow> nat \<Rightarrow> bool" where
  "IsNull values i = (values ! i = None)"

definition GetView :: "'v Array \<Rightarrow> nat \<Rightarrow> 'v" where
  "GetView values i = the (values ! i)"

text \<open>
  What a kernel template needs from the value type it is instantiated at: the
  \<^verbatim>\<open>operator<\<close> of the logical value, and \<^verbatim>\<open>std::isnan\<close> for the floating-point
  types (no value of another type is null-like).
\<close>

record 'v ValueType =
  value_less :: "'v \<Rightarrow> 'v \<Rightarrow> bool"
  is_null_like :: "'v \<Rightarrow> bool"

definition ordered_type :: "('v::linorder) ValueType" where
  "ordered_type = \<lparr>value_less = (<), is_null_like = (\<lambda>_. False)\<rparr>"

text \<open>
  A floating-point value is a number (of a linearly ordered type, infinities included)
  or NaN; \<^verbatim>\<open><\<close> is false as soon as one side is NaN.
\<close>

datatype 'a flt = Fin 'a | NaN

fun flt_less :: "('a::linorder) flt \<Rightarrow> 'a flt \<Rightarrow> bool" where
  "flt_less (Fin a) (Fin b) = (a < b)"
| "flt_less _ _ = False"

fun isnan :: "'a flt \<Rightarrow> bool" where
  "isnan NaN = True"
| "isnan (Fin _) = False"

definition floating_type :: "('a::linorder) flt ValueType" where
  "floating_type = \<lparr>value_less = flt_less, is_null_like = isnan\<rparr>"

subsection \<open>NullPartitionResult\<close>

record NullPartitionResult =
  non_nulls_begin :: nat
  non_nulls_end :: nat
  nulls_begin :: nat
  nulls_end :: nat

text \<open>
  Modelled from the spec: the constructors of \<^verbatim>\<open>NullPartitionResult\<close>
  (\<^verbatim>\<open>vector_sort_internal.h\<close> is not among the sources). The result describes the
  sub-range holding the non-null indices and the sub-range holding the null indices;
  the null sub-range lies at the start or at the end of the range, the midpoint
  separates the two.
\<close>

definition NoNulls :: "nat \<Rightarrow> nat \<Rightarrow> NullPlacement \<Rightarrow> NullPartitionResult" where
  "NoNulls indices_begin indices_end placement =
     (if placement = AtStart
      then \<lparr>non_nulls_begin = indices_begin, non_nulls_end = indices_end,
            nulls_begin = indices_begin, nulls_end = indices_begin\<rparr>
      else \<lparr>non_nulls_begin = indices_begin, non_nulls_end = indices_end,
            nulls_begin = indices_end, nulls_end = indices_end\<rparr>)"

definition NullsOnly :: "nat \<Rightarrow> nat \<Rightarrow> NullPlacement \<Rightarrow> NullPartitionResult" where
  "NullsOnly indices_begin indices_end placement =
     (if placement = AtStart
      then \<lparr>non_nulls_begin = indices_end, non_nulls_end = indices_end,
            nulls_begin = indices_begin, nulls_end = indices_end\<rparr>
      else \<lparr>non_nulls_begin = indices_begin, non_nulls_end = indices_begin,
            nulls_begin = indices_begin, nulls_end = indices_end\<rparr>)"

definition NullsAtEnd :: "nat \<Rightarrow> nat \<Rightarrow> nat \<Rightarrow> NullPartitionResult" where
  "NullsAtEnd indices_begin indices_end midpoint =
     \<lparr>non_nulls_begin = indices_begin, non_nulls_end = midpoint,
      nulls_begin = midpoint, nulls_end = indices_end\<rparr>"

definition NullsAtStart :: "nat \<Rightarrow> nat \<Rightarrow> nat \<Rightarrow> NullPartitionResult" where
  "NullsAtStart indices_begin indices_end midpoint =
     \<lparr>non_nulls_begin = midpoint, non_nulls_end = indices_end,
      nulls_begin = indices_begin, nulls_end = midpoint\<rparr>"

subsection \<open>Standard algorithms\<close>

text \<open>\<^verbatim>\<open>std::iota(out_begin, out_begin + n, 0)\<close>: the first \<open>n\<close> slots are overwritten.\<close>

definition std_iota :: "nat list \<Rightarrow> nat \<Rightarrow> nat list" where
  "std_iota out n = [0..<n] @ drop n out"

text \<open>
  \<^verbatim>\<open>std::stable_sort\<close> with a comparator. For a comparator that is a strict weak
  ordering the result of a stable sort is determined, so the insertion sort below
  computes what any conforming implementation returns.
\<close>

fun insort_by :: "('a \<Rightarrow> 'a \<Rightarrow> bool) \<Rightarrow> 'a \<Rightarrow> 'a list \<Rightarrow> 'a list" where
  "insort_by cmp x [] = [x]"
| "insort_by cmp x (y # ys) =
     (if cmp y x then y # insort_by cmp x ys else x # y # ys)"

definition std_stable_sort :: "('a \<Rightarrow> 'a \<Rightarrow> bool) \<Rightarrow> 'a list \<Rightarrow> 'a list" where
  "std_stable_sort cmp xs = foldr (insort_by cmp) xs []"

text \<open>
  A partitioner takes a predicate and the contents of a range; it returns the
  rearranged contents, the elements satisfying the predicate first, and the number of
  these (the returned iterator). \<^verbatim>\<open>StablePartitioner\<close> is \<^verbatim>\<open>std::stable_partition\<close>.
\<close>

type_synonym Partitioner = "(nat \<Rightarrow> bool) \<Rightarrow> nat list \<Rightarrow> nat list \<times> nat"

definition StablePartitioner :: Partitioner where
  "StablePartitioner pred xs =
     (filter pred xs @ filter (\<lambda>x. \<not> pred x) xs, length (filter pred xs))"

text \<open>
  \<^verbatim>\<open>NonStablePartitioner\<close> is \<^verbatim>\<open>std::partition\<close> and \<^verbatim>\<open>std::nth_element\<close> is the
  selection algorithm of the standard library. The order they leave inside each group
  is unspecified, so the kernel that uses them takes them as parameters; what the
  standard guarantees of them is stated by the two predicates below.
\<close>

definition partitioner_ok :: "Partitioner \<Rightarrow> bool" where
  "partitioner_ok part =
     (\<forall>pred xs. mset (fst (part pred xs)) = mset xs \<and>
        snd (part pred xs) = length (filter pred xs) \<and>
        list_all pred (take (snd (part pred xs)) (fst (part pred xs))) \<and>
        list_all (\<lambda>x. \<not> pred x) (drop (snd (part pred xs)) (fst (part pred xs))))"

type_synonym NthElement = "(nat \<Rightarrow> nat \<Rightarrow> bool) \<Rightarrow> nat list \<Rightarrow> nat \<Rightarrow> nat list"

text \<open>
  The standard guarantees the result of \<^verbatim>\<open>std::nth_element\<close> for comparators that
  are strict weak orderings (asymmetric and negatively transitive) on the elements of
  the range: the result is a rearrangement of the range in which no element from
  position \<open>n\<close> on is less than an element up to position \<open>n\<close> (the element at
  \<open>n\<close> is the one a full sort would put there).
\<close>

definition strict_weak_on :: "nat list \<Rightarrow> (nat \<Rightarrow> nat \<Rightarrow> bool) \<Rightarrow> bool" where
  "strict_weak_on xs cmp =
     ((\<forall>a \<in> set xs. \<forall>b \<in> set xs. cmp a b \<longrightarrow> \<not> cmp b a) \<and>
      (\<forall>a \<in> set xs. \<forall>b \<in> set xs. \<forall>c \<in> set xs. cmp a c \<longrightarrow> cmp a b \<or> cmp b c))"

definition nth_element_ok :: "NthElement \<Rightarrow> bool" where
  "nth_element_ok sel =
     (\<forall>cmp xs n. strict_weak_on xs cmp \<longrightarrow> n < length xs \<longrightarrow>
        mset (sel cmp xs n) = mset xs \<and>
        (\<forall>i \<le> n. \<forall>j < length xs. n \<le> j \<longrightarrow> \<not> cmp (sel cmp xs n ! j) (sel cmp xs n ! i)))"

text \<open>An algorithm applied to the sub-range \<^verbatim>\<open>[b, e)\<close> of a buffer.\<close>

definition on_range :: "nat \<Rightarrow> nat \<Rightarrow> (nat list \<Rightarrow> nat list) \<Rightarrow> nat list \<Rightarrow> nat list" where
  "on_range b e f buf = take b buf @ f (take (e - b) (drop b buf)) @ drop e buf"

definition partition_range ::
  "Partitioner \<Rightarrow> nat list \<Rightarrow> nat \<Rightarrow> nat \<Rightarrow> (nat \<Rightarrow> bool) \<Rightarrow> nat list \<times> nat" where
  "partition_range part buf b e pred =
     (case part pred (take (e - b) (drop b buf)) of
        (seg, m) \<Rightarrow> (take b buf @ seg @ drop e buf, b + m))"

section \<open>Null partitioning\<close>

text \<open>
  Modelled from the spec: \<^verbatim>\<open>PartitionNulls\<close> and its two stages
  (\<^verbatim>\<open>vector_sort_internal.h\<close> is not among the sources). The indices of the null rows
  are grouped at the requested end of the range and the other indices keep the rest of
  it; for a floating-point array the NaN rows are then grouped next to the nulls, on
  the side of the values, so that a NaN lies between the numbers and the nulls and the
  comparator of a sorter never sees one. The null sub-range of the result spans the
  nulls and the NaNs.
\<close>

definition PartitionNullsOnly ::
  "Partitioner \<Rightarrow> nat list \<Rightarrow> nat \<Rightarrow> nat \<Rightarrow> 'v Array \<Rightarrow> nat \<Rightarrow> NullPlacement
     \<Rightarrow> nat list \<times> NullPartitionResult" where
  "PartitionNullsOnly part buf indices_begin indices_end values offset placement =
     (if null_count values = 0 then (buf, NoNulls indices_begin indices_end placement)
      else if placement = AtStart then
        (case partition_range part buf indices_begin indices_end
                (\<lambda>ind. IsNull values (ind - offset)) of
           (buf', null_mid) \<Rightarrow> (buf', NullsAtStart indices_begin indices_end null_mid))
      else
        (case partition_range part buf indices_begin indices_end
                (\<lambda>ind. \<not> IsNull values (ind - offset)) of
           (buf', null_mid) \<Rightarrow> (buf', NullsAtEnd indices_begin indices_end null_mid)))"

definition PartitionNullLikes ::
  "Partitioner \<Rightarrow> 'v ValueType \<Rightarrow> nat list \<Rightarrow> nat \<Rightarrow> nat \<Rightarrow> 'v Array \<Rightarrow> nat \<Rightarrow> NullPlacement
     \<Rightarrow> nat list \<times> NullPartitionResult" where
  "PartitionNullLikes part T buf indices_begin indices_end values offset placement =
     (if placement = AtStart then
        (case partition_range part buf indices_begin indices_end
                (\<lambda>ind. is_null_like T (GetView values (ind - offset))) of
           (buf', null_likes_end) \<Rightarrow>
              (buf', NullsAtStart indices_begin indices_end null_likes_end))
      else
        (case partition_range part buf indices_begin indices_end
                (\<lambda>ind. \<not> is_null_like T (GetView values (ind - offset))) of
           (buf', null_likes_begin) \<Rightarrow>
              (buf', NullsAtEnd indices_begin indices_end null_likes_begin)))"

definition PartitionNulls ::
  "Partitioner \<Rightarrow> 'v ValueType \<Rightarrow> nat list \<Rightarrow> 'v Array \<Rightarrow> nat \<Rightarrow> NullPlacement
     \<Rightarrow> nat list \<times> NullPartitionResult" where
  "PartitionNulls part T indices values offset placement =
     (case PartitionNullsOnly part indices 0 (length indices) values offset placement of
        (buf1, p) \<Rightarrow>
          (case PartitionNullLikes part T buf1 (non_nulls_begin p) (non_nulls_end p)
                  values offset placement of
             (buf2, q) \<Rightarrow>
               (buf2, \<lparr>non_nulls_begin = non_nulls_begin q, non_nulls_end = non_nulls_end q,
                       nulls_begin = min (nulls_begin q) (nulls_begin p),
                       nulls_end = max (nulls_end q) (nulls_end p)\<rparr>)))"

section \<open>The kernel \<^verbatim>\<open>partition_nth_indices\<close>\<close>

text \<open>
  \<^verbatim>\<open>PartitionNthToIndices<OutType, InType>::Exec\<close>. The kernel state is the options
  object, absent when the caller gave none; \<open>out\<close> is the preallocated output buffer,
  returned as the call leaves it.
\<close>

definition PartitionNthToIndices_Exec ::
  "Partitioner \<Rightarrow> NthElement \<Rightarrow> 'v ValueType \<Rightarrow> PartitionNthOptions option \<Rightarrow> 'v Array
     \<Rightarrow> nat list \<Rightarrow> Status \<times> nat list" where
  "PartitionNthToIndices_Exec part nth_element T state arr out =
     (case state of
        None \<Rightarrow> (Invalid ''NthToIndices requires PartitionNthOptions'', out)
      | Some options \<Rightarrow>
          if pivot options > int (length arr)
          then (IndexError ''NthToIndices index out of bound'', out)
          else
            let out1 = std_iota out (length arr) in
            if pivot options = int (length arr) then (OK, out1)
            else
              (case PartitionNulls part T (take (length arr) out1) arr 0
                      (nth_null_placement options) of
                 (indices, p) \<Rightarrow>
                   if int (non_nulls_begin p) \<le> pivot options \<and>
                      pivot options < int (non_nulls_end p)
                   then (OK,
                     on_range (non_nulls_begin p) (non_nulls_end p)
                       (\<lambda>seg. nth_element
                          (\<lambda>left right.
                             value_less T (GetView arr left) (GetView arr right))
                          seg (nat (pivot options) - non_nulls_begin p))
                       indices @ drop (length arr) out1)
                   else (OK, indices @ drop (length arr) out1)))"

text \<open>
  The specialisation \<^verbatim>\<open>PartitionNthToIndices<OutType, NullType>::Exec\<close>; \<open>batch_length\<close>
  is the length of the null-typed array.
\<close>

definition PartitionNthToIndices_Null_Exec ::
  "PartitionNthOptions option \<Rightarrow> nat \<Rightarrow> nat list \<Rightarrow> Status \<times> nat list" where
  "PartitionNthToIndices_Null_Exec state batch_length out =
     (case state of
        None \<Rightarrow> (Invalid ''NthToIndices requires PartitionNthOptions'', out)
      | Some options \<Rightarrow> (OK, std_iota out batch_length))"

section \<open>Logical types\<close>

text \<open>
  The logical types of the engine (the enumeration \<^verbatim>\<open>Type::type\<close>), the traits the
  specialisations of \<^verbatim>\<open>ArraySorter\<close> are selected by, and \<^verbatim>\<open>GetPhysicalType\<close>.

  Modelled from the spec: \<^verbatim>\<open>type_fwd.h\<close>, \<^verbatim>\<open>type_traits.h\<close> and \<^verbatim>\<open>GetPhysicalType\<close>
  are not among the sources. The categories are null, boolean, 1-byte integer, wider
  integer, floating point and binary-like (variable or fixed length, the decimals among
  the latter); temporal and duration types are sorted through their integer physical
  representation; nested types have no sorter. The \<^verbatim>\<open>c_type\<close> of an integer type is
  the signed or unsigned C integer of its width (\<^verbatim>\<open>int32_t\<close> for \<^verbatim>\<open>Int32Type\<close>, and so
  on); \<^verbatim>\<open>sizeof_c_type\<close> is its size in bytes.
\<close>

datatype DataType =
    NA | BOOL | UINT8 | INT8 | UINT16 | INT16 | UINT32 | INT32 | UINT64 | INT64
  | HALF_FLOAT | FLOAT | DOUBLE | STRING | BINARY | FIXED_SIZE_BINARY
  | DATE32 | DATE64 | TIMESTAMP | TIME32 | TIME64 | INTERVAL_MONTHS | INTERVAL_DAY_TIME
  | DECIMAL128 | DECIMAL256 | LIST | STRUCT | SPARSE_UNION | DENSE_UNION | DICTIONARY
  | MAP | EXTENSION | FIXED_SIZE_LIST | DURATION | LARGE_STRING | LARGE_BINARY | LARGE_LIST

definition is_integer_type :: "DataType \<Rightarrow> bool" where
  "is_integer_type t = (t \<in> set [UINT8, INT8, UINT16, INT16, UINT32, INT32, UINT64, INT64])"

definition is_signed_integer_type :: "DataType \<Rightarrow> bool" where
  "is_signed_integer_type t = (t \<in> set [INT8, INT16, INT32, INT64])"

definition sizeof_c_type :: "DataType \<Rightarrow> nat" where
  "sizeof_c_type t =
     (if t \<in> set [UINT8, INT8] then 1
      else if t \<in> set [UINT16, INT16] then 2
      else if t \<in> set [UINT32, INT32] then 4
      else 8)"

definition is_floating_type :: "DataType \<Rightarrow> bool" where
  "is_floating_type t = (t \<in> set [HALF_FLOAT, FLOAT, DOUBLE])"

definition is_base_binary_type :: "DataType \<Rightarrow> bool" where
  "is_base_binary_type t = (t \<in> set [STRING, BINARY, LARGE_STRING, LARGE_BINARY])"

definition is_fixed_size_binary_type :: "DataType \<Rightarrow> bool" where
  "is_fixed_size_binary_type t = (t \<in> set [FIXED_SIZE_BINARY, DECIMAL128, DECIMAL256])"

definition GetPhysicalType :: "DataType \<Rightarrow> DataType" where
  "GetPhysicalType t =
     (if t \<in> set [DATE32, TIME32] then INT32
      else if t \<in> set [DATE64, TIMESTAMP, TIME64, DURATION] then INT64
      else if t = STRING then BINARY
      else if t = LARGE_STRING then LARGE_BINARY
      else t)"

fun ToString :: "DataType \<Rightarrow> string" where
  "ToString NA = ''null''"
| "ToString BOOL = ''bool''"
| "ToString UINT8 = ''uint8''"
| "ToString INT8 = ''int8''"
| "ToString UINT16 = ''uint16''"
| "ToString INT16 = ''int16''"
| "ToString UINT32 = ''uint32''"
| "ToString INT32 = ''int32''"
| "ToString UINT64 = ''uint64''"
| "ToString INT64 = ''int64''"
| "ToString HALF_FLOAT = ''halffloat''"
| "ToString FLOAT = ''float''"
| "ToString DOUBLE = ''double''"
| "ToString STRING = ''string''"
| "ToString BINARY = ''binary''"
| "ToString FIXED_SIZE_BINARY = ''fixed_size_binary''"
| "ToString DATE32 = ''date32''"
| "ToString DATE64 = ''date64''"
| "ToString TIMESTAMP = ''timestamp''"
| "ToString TIME32 = ''time32''"
| "ToString TIME64 = ''time64''"
| "ToString INTERVAL_MONTHS = ''month_interval''"
| "ToString INTERVAL_DAY_TIME = ''day_time_interval''"
| "ToString DECIMAL128 = ''decimal128''"
| "ToString DECIMAL256 = ''decimal256''"
| "ToString LIST = ''list''"
| "ToString STRUCT = ''struct''"
| "ToString SPARSE_UNION = ''sparse_union''"
| "ToString DENSE_UNION = ''dense_union''"
| "ToString DICTIONARY = ''dictionary''"
| "ToString MAP = ''map''"
| "ToString EXTENSION = ''extension''"
| "ToString FIXED_SIZE_LIST = ''fixed_size_list''"
| "ToString DURATION = ''duration''"
| "ToString LARGE_STRING = ''large_string''"
| "ToString LARGE_BINARY = ''large_binary''"
| "ToString LARGE_LIST = ''large_list''"

section \<open>Array sorters\<close>

text \<open>
  \<^verbatim>\<open>VisitRawValuesInline\<close>: the slots are visited in order, a valid slot with its value
  by the first visitor, a null slot by the second. The visitors of the sorters update
  counters and the index buffer, which is the state threaded through here; a visitor
  that would access memory out of bounds yields \<open>None\<close>. The overload for boolean
  arrays visits the same slots with the same values.
\<close>

fun VisitRawValuesInline ::
  "'v Array \<Rightarrow> ('v \<Rightarrow> 's \<Rightarrow> 's option) \<Rightarrow> ('s \<Rightarrow> 's option) \<Rightarrow> 's \<Rightarrow> 's option" where
  "VisitRawValuesInline [] visitor_not_null visitor_null s = Some s"
| "VisitRawValuesInline (Some v # values) visitor_not_null visitor_null s =
     (case visitor_not_null v s of
        None \<Rightarrow> None
      | Some s' \<Rightarrow> VisitRawValuesInline values visitor_not_null visitor_null s')"
| "VisitRawValuesInline (None # values) visitor_not_null visitor_null s =
     (case visitor_null s of
        None \<Rightarrow> None
      | Some s' \<Rightarrow> VisitRawValuesInline values visitor_not_null visitor_null s')"

subsection \<open>\<^verbatim>\<open>ArrayCompareSorter\<close>\<close>

text \<open>
  The comparators read \<^verbatim>\<open>values.GetView(index - offset)\<close>; the sorter has no defined
  result when the range holds an index outside the array.
\<close>

definition ArrayCompareSorter ::
  "'v ValueType \<Rightarrow> nat list \<Rightarrow> 'v Array \<Rightarrow> nat \<Rightarrow> ArraySortOptions
     \<Rightarrow> (nat list \<times> NullPartitionResult) option" where
  "ArrayCompareSorter T indices values offset options =
     (if list_all (\<lambda>ind. offset \<le> ind \<and> ind - offset < length values) indices then
        (case PartitionNulls StablePartitioner T indices values offset
                (null_placement options) of
           (buf, p) \<Rightarrow>
             if order options = Ascending then
               Some (on_range (non_nulls_begin p) (non_nulls_end p)
                       (std_stable_sort (\<lambda>left right.
                          value_less T (GetView values (left - offset))
                                       (GetView values (right - offset))))
                       buf, p)
             else
               Some (on_range (non_nulls_begin p) (non_nulls_end p)
                       (std_stable_sort (\<lambda>left right.
                          value_less T (GetView values (right - offset))
                                       (GetView values (left - offset))))
                       buf, p))
      else None)"

subsection \<open>\<^verbatim>\<open>ArrayCountSorter\<close>\<close>

text \<open>
  The sorter of an integer type \<open>t\<close> keeps \<^verbatim>\<open>min_\<close>, of the \<^verbatim>\<open>c_type\<close> of \<open>t\<close>, and the
  32-bit \<^verbatim>\<open>value_range_\<close>. The values of an integer array are their logical values.

  \<^verbatim>\<open>max - min\<close> and \<^verbatim>\<open>v - min_\<close> are subtractions of two \<^verbatim>\<open>c_type\<close> values: operands
  narrower than \<^verbatim>\<open>int\<close> are promoted to the 32-bit \<^verbatim>\<open>int\<close>; the subtraction of a signed
  type is undefined when the difference does not fit the type (\<open>None\<close>), that of an
  unsigned type wraps. \<^verbatim>\<open>static_cast<uint32_t>(max - min) + 1\<close> is computed modulo
  \<open>2^32\<close>, as the vector size \<^verbatim>\<open>2 + value_range\<close> is.

  A counter is 32 bits wide when the array is shorter than \<open>2^32\<close> and 64 bits wide
  otherwise. No counter exceeds the length of the array, and that is below \<open>2^63\<close>, so
  a counter never wraps: counters are natural numbers and both instances of
  \<^verbatim>\<open>SortInternal\<close> are one function.
\<close>

definition c_sub :: "DataType \<Rightarrow> int \<Rightarrow> int \<Rightarrow> int option" where
  "c_sub t a b =
     (if is_signed_integer_type t \<or> sizeof_c_type t < 4
      then (if - (2 ^ (max 32 (8 * sizeof_c_type t) - 1)) \<le> a - b \<and>
               a - b < 2 ^ (max 32 (8 * sizeof_c_type t) - 1)
            then Some (a - b) else None)
      else Some ((a - b) mod 2 ^ (8 * sizeof_c_type t)))"

record CountSorter =
  min_member :: int
  value_range_member :: nat

definition SetMinMax :: "DataType \<Rightarrow> int \<Rightarrow> int \<Rightarrow> CountSorter option" where
  "SetMinMax t mn mx =
     (case c_sub t mx mn of
        None \<Rightarrow> None
      | Some d \<Rightarrow>
          Some \<lparr>min_member = mn, value_range_member = (nat (d mod 2 ^ 32) + 1) mod 2 ^ 32\<rparr>)"

text \<open>
  \<^verbatim>\<open>++counts[v - min_]\<close>, with \<open>counts\<close> pointing at slot \<open>base\<close> of the vector: the
  slot \<open>base + (v - min_)\<close> of the vector is incremented, and a slot outside the vector
  is an access out of bounds.
\<close>

definition CountValues ::
  "DataType \<Rightarrow> CountSorter \<Rightarrow> int Array \<Rightarrow> nat \<Rightarrow> nat list \<Rightarrow> nat list option" where
  "CountValues t s values base counts =
     VisitRawValuesInline values
       (\<lambda>v c.
          case c_sub t v (min_member s) of
            None \<Rightarrow> None
          | Some d \<Rightarrow>
              if 0 \<le> int base + d \<and> int base + d < int (length c)
              then Some (c[nat (int base + d) := c ! nat (int base + d) + 1])
              else None)
       (\<lambda>c. Some c)
       counts"

text \<open>
  The state of \<^verbatim>\<open>EmitIndices\<close>: \<^verbatim>\<open>index\<close>, \<^verbatim>\<open>count_nulls\<close>, the counters and the
  index buffer.
\<close>

type_synonym EmitState = "nat \<times> nat \<times> nat list \<times> nat list"

definition EmitIndices ::
  "DataType \<Rightarrow> CountSorter \<Rightarrow> NullPartitionResult \<Rightarrow> int Array \<Rightarrow> nat \<Rightarrow> nat \<Rightarrow> nat list
     \<Rightarrow> nat list \<Rightarrow> nat list option" where
  "EmitIndices t s p values offset base counts indices =
     map_option (\<lambda>(index, count_nulls, c, buf). buf)
       (VisitRawValuesInline values
          (\<lambda>v (index, count_nulls, c, buf).
             case c_sub t v (min_member s) of
               None \<Rightarrow> None
             | Some d \<Rightarrow>
                 if 0 \<le> int base + d \<and> int base + d < int (length c) \<and>
                    non_nulls_begin p + c ! nat (int base + d) < length buf
                 then Some (index + 1, count_nulls,
                            c[nat (int base + d) := c ! nat (int base + d) + 1],
                            buf[non_nulls_begin p + c ! nat (int base + d) := index])
                 else None)
          (\<lambda>(index, count_nulls, c, buf).
             if nulls_begin p + count_nulls < length buf
             then Some (index + 1, count_nulls + 1, c, buf[nulls_begin p + count_nulls := index])
             else None)
          (offset, 0, counts, indices))"

text \<open>The two prefix-sum loops of \<^verbatim>\<open>SortInternal\<close>.\<close>

definition add_slot :: "nat \<Rightarrow> nat \<Rightarrow> nat list option \<Rightarrow> nat list option" where
  "add_slot dst src c =
     (case c of
        None \<Rightarrow> None
      | Some counts \<Rightarrow>
          if dst < length counts \<and> src < length counts
          then Some (counts[dst := counts ! dst + counts ! src])
          else None)"

definition accumulate_up :: "nat \<Rightarrow> nat list \<Rightarrow> nat list option" where
  "accumulate_up value_range counts =
     fold (\<lambda>i. add_slot i (i - 1)) [1..<Suc value_range] (Some counts)"

definition accumulate_down :: "nat \<Rightarrow> nat list \<Rightarrow> nat list option" where
  "accumulate_down value_range counts =
     fold (\<lambda>i. add_slot (i - 1) i) (rev [1..<Suc value_range]) (Some counts)"

text \<open>
  \<^verbatim>\<open>SortInternal\<close>. The midpoint handed to \<^verbatim>\<open>NullsAtStart\<close> or \<^verbatim>\<open>NullsAtEnd\<close> is
  \<^verbatim>\<open>indices_end - count\<close> or \<^verbatim>\<open>indices_begin + count\<close>; a count above the length of
  the range would take it outside the range.
\<close>

definition SortInternal ::
  "DataType \<Rightarrow> CountSorter \<Rightarrow> nat list \<Rightarrow> int Array \<Rightarrow> nat \<Rightarrow> ArraySortOptions
     \<Rightarrow> (nat list \<times> NullPartitionResult) option" where
  "SortInternal t s indices values offset options =
     (let value_range = value_range_member s;
          counts = replicate ((2 + value_range) mod 2 ^ 32) (0::nat)
      in
        if order options = Ascending then
          (case CountValues t s values 1 counts of
             None \<Rightarrow> None
           | Some counts1 \<Rightarrow>
              (case accumulate_up value_range counts1 of
                 None \<Rightarrow> None
               | Some counts2 \<Rightarrow>
                   if value_range < length counts2 \<and> counts2 ! value_range \<le> length indices
                   then
                     let p = (if null_placement options = AtStart
                              then NullsAtStart 0 (length indices)
                                     (length indices - counts2 ! value_range)
                              else NullsAtEnd 0 (length indices)
                                     (0 + counts2 ! value_range))
                     in map_option (\<lambda>buf. (buf, p))
                          (EmitIndices t s p values offset 0 counts2 indices)
                   else None))
        else
          (case CountValues t s values 0 counts of
             None \<Rightarrow> None
           | Some counts1 \<Rightarrow>
              (case accumulate_down value_range counts1 of
                 None \<Rightarrow> None
               | Some counts2 \<Rightarrow>
                   if 0 < length counts2 \<and> counts2 ! 0 \<le> length indices
                   then
                     let p = (if null_placement options = AtStart
                              then NullsAtStart 0 (length indices)
                                     (length indices - counts2 ! 0)
                              else NullsAtEnd 0 (length indices) (0 + counts2 ! 0))
                     in map_option (\<lambda>buf. (buf, p))
                          (EmitIndices t s p values offset 1 counts2 indices)
                   else None)))"

definition ArrayCountSorter ::
  "DataType \<Rightarrow> CountSorter \<Rightarrow> nat list \<Rightarrow> int Array \<Rightarrow> nat \<Rightarrow> ArraySortOptions
     \<Rightarrow> (nat list \<times> NullPartitionResult) option" where
  "ArrayCountSorter t s indices values offset options =
     (if length values < 2 ^ 32
      then SortInternal t s indices values offset options
      else SortInternal t s indices values offset options)"

subsection \<open>\<^verbatim>\<open>ArrayCountSorter<BooleanType>\<close>\<close>

definition true_count :: "bool Array \<Rightarrow> nat" where
  "true_count values = length (filter (\<lambda>x. x = Some True) values)"

definition ArrayCountSorter_Boolean ::
  "nat list \<Rightarrow> bool Array \<Rightarrow> nat \<Rightarrow> ArraySortOptions
     \<Rightarrow> (nat list \<times> NullPartitionResult) option" where
  "ArrayCountSorter_Boolean indices values offset options =
     (let nulls = null_count values;
          ones = true_count values;
          zeros = length values - ones - nulls;
          p = (if null_placement options = AtStart
               then NullsAtStart 0 (length indices) (0 + nulls)
               else NullsAtEnd 0 (length indices) (length indices - nulls));
          counts = (if order options = Ascending then [0, zeros, 0] else [ones, 0, 0])
      in
        if nulls \<le> length indices then
          map_option (\<lambda>(index, c, buf). (buf, p))
            (VisitRawValuesInline values
               (\<lambda>v (index, c, buf).
                  if non_nulls_begin p + c ! (if v then 1 else 0) < length buf
                  then Some (index + 1,
                             c[(if v then 1 else 0) := c ! (if v then 1 else 0) + 1],
                             buf[non_nulls_begin p + c ! (if v then 1 else 0) := index])
                  else None)
               (\<lambda>(index, c, buf).
                  if nulls_begin p + c ! 2 < length buf
                  then Some (index + 1, c[2 := c ! 2 + 1], buf[nulls_begin p + c ! 2 := index])
                  else None)
               (offset, counts, indices))
        else None)"

subsection \<open>\<^verbatim>\<open>ArrayCountOrCompareSorter\<close>\<close>

text \<open>
  Modelled from the spec: \<^verbatim>\<open>GetMinMax\<close> (\<^verbatim>\<open>util_internal.h\<close> is not among the
  sources) computes the minimum and the maximum over the non-null values of the array.
  The sorter calls it only when the array holds a non-null value.
\<close>

definition GetMinMax :: "int Array \<Rightarrow> int \<times> int" where
  "GetMinMax values =
     (case [v. Some v \<leftarrow> values] of
        [] \<Rightarrow> (0, 0)
      | v # vs \<Rightarrow> (fold min vs v, fold max vs v))"

definition countsort_min_len :: nat where
  "countsort_min_len = 1024"

definition countsort_max_range :: int where
  "countsort_max_range = 4096"

text \<open>\<^verbatim>\<open>static_cast<uint64_t>\<close> of an integer value, and the subtraction of two such.\<close>

definition cast_uint64 :: "int \<Rightarrow> int" where
  "cast_uint64 v = v mod 2 ^ 64"

definition sub_uint64 :: "int \<Rightarrow> int \<Rightarrow> int" where
  "sub_uint64 a b = (a - b) mod 2 ^ 64"

text \<open>
  The decision of \<^verbatim>\<open>ArrayCountOrCompareSorter::operator()\<close>, named so that it can be
  spoken about: the counting sorter with the bounds it is set to, or the comparison
  sorter.
\<close>

datatype SorterChoice = UseCountSorter int int | UseCompareSorter

definition choose_sorter :: "int Array \<Rightarrow> SorterChoice" where
  "choose_sorter values =
     (if length values \<ge> countsort_min_len \<and> length values > null_count values then
        (case GetMinMax values of
           (mn, mx) \<Rightarrow>
             if sub_uint64 (cast_uint64 mx) (cast_uint64 mn) \<le> countsort_max_range
             then UseCountSorter mn mx
             else UseCompareSorter)
      else UseCompareSorter)"

text \<open>
  The counting sorter set to the bounds \<open>mn\<close> and \<open>mx\<close> and then called:
  \<^verbatim>\<open>count_sorter_.SetMinMax(min, max); return count_sorter_(...)\<close>, or the constructor
  \<^verbatim>\<open>ArrayCountSorter(min, max)\<close> followed by a call.
\<close>

definition ArrayCountSorter_of ::
  "DataType \<Rightarrow> int \<Rightarrow> int \<Rightarrow> nat list \<Rightarrow> int Array \<Rightarrow> nat \<Rightarrow> ArraySortOptions
     \<Rightarrow> (nat list \<times> NullPartitionResult) option" where
  "ArrayCountSorter_of t mn mx indices values offset options =
     (case SetMinMax t mn mx of
        None \<Rightarrow> None
      | Some count_sorter \<Rightarrow> ArrayCountSorter t count_sorter indices values offset options)"

definition ArrayCountOrCompareSorter ::
  "DataType \<Rightarrow> nat list \<Rightarrow> int Array \<Rightarrow> nat \<Rightarrow> ArraySortOptions
     \<Rightarrow> (nat list \<times> NullPartitionResult) option" where
  "ArrayCountOrCompareSorter t indices values offset options =
     (case choose_sorter values of
        UseCountSorter mn mx \<Rightarrow> ArrayCountSorter_of t mn mx indices values offset options
      | UseCompareSorter \<Rightarrow>
          ArrayCompareSorter ordered_type indices values offset options)"

subsection \<open>\<^verbatim>\<open>ArrayNullSorter\<close>\<close>

definition ArrayNullSorter ::
  "nat list \<Rightarrow> nat \<Rightarrow> ArraySortOptions \<Rightarrow> (nat list \<times> NullPartitionResult) option" where
  "ArrayNullSorter indices offset options =
     Some (indices, NullsOnly 0 (length indices) (null_placement options))"

section \<open>Type dispatch\<close>

text \<open>
  The member \<^verbatim>\<open>impl\<close> of a specialisation of \<^verbatim>\<open>ArraySorter\<close>: which sorter class it
  is, at which integer type it is instantiated, and the state it is constructed with
  (\<^verbatim>\<open>impl(0, 255)\<close> for \<^verbatim>\<open>UInt8Type\<close>, \<^verbatim>\<open>impl(-128, 127)\<close> for \<^verbatim>\<open>Int8Type\<close>; the
  subtraction in \<^verbatim>\<open>SetMinMax\<close> is defined for both). The primary template has no such
  member.
\<close>

datatype Sorter =
    NullSorter
  | BooleanCountSorter
  | CountSorter DataType CountSorter
  | CountOrCompareSorter DataType
  | CompareSorter

definition ArraySorter :: "DataType \<Rightarrow> Sorter option" where
  "ArraySorter t =
     (if t = NA then Some NullSorter
      else if t = BOOL then Some BooleanCountSorter
      else if t = UINT8 then map_option (CountSorter UINT8) (SetMinMax UINT8 0 255)
      else if t = INT8 then map_option (CountSorter INT8) (SetMinMax INT8 (- 128) 127)
      else if is_integer_type t \<and> sizeof_c_type t > 1 then Some (CountOrCompareSorter t)
      else if is_floating_type t \<or> is_base_binary_type t \<or> is_fixed_size_binary_type t
      then Some CompareSorter
      else None)"

text \<open>
  \<^verbatim>\<open>ArraySorterFactory\<close>: the overload of \<^verbatim>\<open>Visit\<close> for a type whose \<^verbatim>\<open>ArraySorter\<close>
  has the member \<^verbatim>\<open>impl\<close> stores the sorter, the overload for \<^verbatim>\<open>DataType\<close> is the
  fallback. \<^verbatim>\<open>MakeSorter\<close> returns the status of the visit if it is an error and the
  stored \<^verbatim>\<open>ArraySortFunc\<close> otherwise, which is empty (\<open>None\<close>) as long as no visit has
  stored a sorter.
\<close>

definition Visit :: "DataType \<Rightarrow> Status \<times> Sorter option" where
  "Visit t =
     (case ArraySorter t of
        None \<Rightarrow> (TypeError (''Sorting not supported for type '' @ ToString t), None)
      | Some impl \<Rightarrow> (OK, Some impl))"

definition MakeSorter :: "DataType \<Rightarrow> Status + Sorter option" where
  "MakeSorter t =
     (case Visit t of
        (OK, sorter) \<Rightarrow> Inr sorter
      | (status, _) \<Rightarrow> Inl status)"

definition GetArraySorter :: "DataType \<Rightarrow> Status + Sorter option" where
  "GetArraySorter t = MakeSorter t"

section \<open>The kernel \<^verbatim>\<open>array_sort_indices\<close>\<close>

text \<open>
  The data of an array of one of the value domains: none for the null type, booleans,
  integers (of any width, and the decimals by their integer value), floating-point
  numbers, byte strings; nested data is not looked into.
\<close>

datatype ArrayData =
    NullData nat
  | BooleanData "bool Array"
  | IntegerData "int Array"
  | FloatingData "real flt Array"
  | BinaryData "string Array"
  | NestedData nat

fun array_length :: "ArrayData \<Rightarrow> nat" where
  "array_length (NullData n) = n"
| "array_length (BooleanData vs) = length vs"
| "array_length (IntegerData vs) = length vs"
| "array_length (FloatingData vs) = length vs"
| "array_length (BinaryData vs) = length vs"
| "array_length (NestedData n) = n"

text \<open>
  A call of the type-erased \<^verbatim>\<open>ArraySortFunc\<close>. Each sorter casts the array to the array
  class of its type (\<^verbatim>\<open>checked_cast\<close>); the call has no defined result on an array of
  another class, nor when the function object is empty. \<^verbatim>\<open>ArrayNullSorter\<close> does not
  look at the array.
\<close>

fun call_sorter ::
  "Sorter option \<Rightarrow> nat list \<Rightarrow> ArrayData \<Rightarrow> nat \<Rightarrow> ArraySortOptions
     \<Rightarrow> (nat list \<times> NullPartitionResult) option" where
  "call_sorter (Some NullSorter) indices arr offset options = ArrayNullSorter indices offset options"
| "call_sorter (Some BooleanCountSorter) indices (BooleanData vs) offset options =
     ArrayCountSorter_Boolean indices vs offset options"
| "call_sorter (Some (CountSorter t s)) indices (IntegerData vs) offset options =
     ArrayCountSorter t s indices vs offset options"
| "call_sorter (Some (CountOrCompareSorter t)) indices (IntegerData vs) offset options =
     ArrayCountOrCompareSorter t indices vs offset options"
| "call_sorter (Some CompareSorter) indices (FloatingData vs) offset options =
     ArrayCompareSorter floating_type indices vs offset options"
| "call_sorter (Some CompareSorter) indices (BinaryData vs) offset options =
     ArrayCompareSorter ordered_type indices vs offset options"
| "call_sorter (Some CompareSorter) indices (IntegerData vs) offset options =
     ArrayCompareSorter ordered_type indices vs offset options"
| "call_sorter _ indices _ offset options = None"

text \<open>
  \<^verbatim>\<open>ArraySortIndices<OutType, InType>::Exec\<close>: \<open>ty\<close> is the logical type of the array,
  \<open>out\<close> the preallocated output buffer. The result is the status and the buffer as the
  call leaves it.
\<close>

definition ArraySortIndices_Exec ::
  "ArraySortOptions \<Rightarrow> DataType \<Rightarrow> ArrayData \<Rightarrow> nat list \<Rightarrow> (Status \<times> nat list) option" where
  "ArraySortIndices_Exec options ty arr out =
     (case GetArraySorter (GetPhysicalType ty) of
        Inl status \<Rightarrow> Some (status, out)
      | Inr sorter \<Rightarrow>
          let out1 = std_iota out (array_length arr) in
          (case call_sorter sorter (take (array_length arr) out1) arr 0 options of
             None \<Rightarrow> None
           | Some (indices, p) \<Rightarrow> Some (OK, indices @ drop (array_length arr) out1)))"

section \<open>Auxiliary notions for the proofs\<close>

text \<open>
  The rows of an array fall into three groups: the rows holding an ordinary value, the
  rows holding a null-like value (NaN) and the null rows. The output a stable sorter is
  expected to produce lays the groups out by the null placement, the value rows sorted
  by a key; a descending sort is an ascending sort in the reversed order of the keys.
\<close>

datatype 'a down = Down 'a

instantiation down :: (linorder) linorder
begin
fun less_eq_down :: "'a down \<Rightarrow> 'a down \<Rightarrow> bool" where
  "less_eq_down (Down a) (Down b) = (b \<le> a)"
fun less_down :: "'a down \<Rightarrow> 'a down \<Rightarrow> bool" where
  "less_down (Down a) (Down b) = (b < a)"
instance
proof
  fix x y z :: "'a down"
  show "(x < y) = (x \<le> y \<and> \<not> y \<le> x)" by (cases x; cases y) auto
  show "x \<le> x" by (cases x) auto
  show "x \<le> y \<Longrightarrow> y \<le> z \<Longrightarrow> x \<le> z" by (cases x; cases y; cases z) auto
  show "x \<le> y \<Longrightarrow> y \<le> x \<Longrightarrow> x = y" by (cases x; cases y) auto
  show "x \<le> y \<or> y \<le> x" by (cases x; cases y) auto
qed
end

text \<open>
  The counting sorter with the subtractions \<^verbatim>\<open>max - min\<close> and \<^verbatim>\<open>v - min_\<close> taken in the
  integers. It is what \<^verbatim>\<open>ArrayCountSorter\<close> computes as long as these subtractions
  are exact in its \<^verbatim>\<open>c_type\<close> and no value lies below \<^verbatim>\<open>min_\<close> (lemma
  \<open>ArrayCountSorter_exact\<close>); the proofs about the counters are carried out on it.
\<close>

definition SetMinMax_exact :: "int \<Rightarrow> int \<Rightarrow> CountSorter" where
  "SetMinMax_exact mn mx =
     \<lparr>min_member = mn, value_range_member = (nat ((mx - mn) mod 2 ^ 32) + 1) mod 2 ^ 32\<rparr>"

definition CountValues_exact :: "CountSorter \<Rightarrow> int Array \<Rightarrow> nat \<Rightarrow> nat list \<Rightarrow> nat list option" where
  "CountValues_exact s values base counts =
     VisitRawValuesInline values
       (\<lambda>v c. if min_member s \<le> v \<and> base + nat (v - min_member s) < length c
               then Some (c[base + nat (v - min_member s) := c ! (base + nat (v - min_member s)) + 1])
               else None)
       (\<lambda>c. Some c)
       counts"

definition EmitIndices_exact ::
  "CountSorter \<Rightarrow> NullPartitionResult \<Rightarrow> int Array \<Rightarrow> nat \<Rightarrow> nat \<Rightarrow> nat list \<Rightarrow> nat list
     \<Rightarrow> nat list option" where
  "EmitIndices_exact s p values offset base counts indices =
     map_option (\<lambda>(index, count_nulls, c, buf). buf)
       (VisitRawValuesInline values
          (\<lambda>v (index, count_nulls, c, buf).
             if min_member s \<le> v \<and> base + nat (v - min_member s) < length c \<and>
                non_nulls_begin p + c ! (base + nat (v - min_member s)) < length buf
             then Some (index + 1, count_nulls,
                        c[base + nat (v - min_member s) := c ! (base + nat (v - min_member s)) + 1],
                        buf[non_nulls_begin p + c ! (base + nat (v - min_member s)) := index])
             else None)
          (\<lambda>(index, count_nulls, c, buf).
             if nulls_begin p + count_nulls < length buf
             then Some (index + 1, count_nulls + 1, c, buf[nulls_begin p + count_nulls := index])
             else None)
          (offset, 0, counts, indices))"

definition SortInternal_exact ::
  "CountSorter \<Rightarrow> nat list \<Rightarrow> int Array \<Rightarrow> nat \<Rightarrow> ArraySortOptions
     \<Rightarrow> (nat list \<times> NullPartitionResult) option" where
  "SortInternal_exact s indices values offset options =
     (let value_range = value_range_member s;
          counts = replicate ((2 + value_range) mod 2 ^ 32) (0::nat)
      in
        if order options = Ascending then
          (case CountValues_exact s values 1 counts of
             None \<Rightarrow> None
           | Some counts1 \<Rightarrow>
              (case accumulate_up value_range counts1 of
                 None \<Rightarrow> None
               | Some counts2 \<Rightarrow>
                   if value_range < length counts2 \<and> counts2 ! value_range \<le> length indices
                   then
                     let p = (if null_placement options = AtStart
                              then NullsAtStart 0 (length indices)
                                     (length indices - counts2 ! value_range)
                              else NullsAtEnd 0 (length indices)
                                     (0 + counts2 ! value_range))
                     in map_option (\<lambda>buf. (buf, p))
                          (EmitIndices_exact s p values offset 0 counts2 indices)
                   else None))
        else
          (case CountValues_exact s values 0 counts of
             None \<Rightarrow> None
           | Some counts1 \<Rightarrow>
              (case accumulate_down value_range counts1 of
                 None \<Rightarrow> None
               | Some counts2 \<Rightarrow>
                   if 0 < length counts2 \<and> counts2 ! 0 \<le> length indices
                   then
                     let p = (if null_placement options = AtStart
                              then NullsAtStart 0 (length indices)
                                     (length indices - counts2 ! 0)
                              else NullsAtEnd 0 (length indices) (0 + counts2 ! 0))
                     in map_option (\<lambda>buf. (buf, p))
                          (EmitIndices_exact s p values offset 1 counts2 indices)
                   else None)))"

definition ArrayCountSorter_exact ::
  "CountSorter \<Rightarrow> nat list \<Rightarrow> int Array \<Rightarrow> nat \<Rightarrow> ArraySortOptions
     \<Rightarrow> (nat list \<times> NullPartitionResult) option" where
  "ArrayCountSorter_exact s indices values offset options =
     (if length values < 2 ^ 32
      then SortInternal_exact s indices values offset options
      else SortInternal_exact s indices values offset options)"

definition is_value_row :: "'v ValueType \<Rightarrow> 'v Array \<Rightarrow> nat \<Rightarrow> bool" where
  "is_value_row T values i = (case values ! i of None \<Rightarrow> False | Some v \<Rightarrow> \<not> is_null_like T v)"

definition is_null_like_row :: "'v ValueType \<Rightarrow> 'v Array \<Rightarrow> nat \<Rightarrow> bool" where
  "is_null_like_row T values i = (case values ! i of None \<Rightarrow> False | Some v \<Rightarrow> is_null_like T v)"

definition value_rows :: "'v ValueType \<Rightarrow> 'v Array \<Rightarrow> nat list" where
  "value_rows T values = filter (is_value_row T values) [0..<length values]"

definition null_like_rows :: "'v ValueType \<Rightarrow> 'v Array \<Rightarrow> nat list" where
  "null_like_rows T values = filter (is_null_like_row T values) [0..<length values]"

definition null_rows :: "'v Array \<Rightarrow> nat list" where
  "null_rows values = filter (IsNull values) [0..<length values]"

definition sorted_value_rows ::
  "('v \<Rightarrow> 'k::linorder) \<Rightarrow> 'v ValueType \<Rightarrow> 'v Array \<Rightarrow> SortOrder \<Rightarrow> nat list" where
  "sorted_value_rows key T values ord =
     (if ord = Ascending
      then sort_key (\<lambda>i. key (GetView values i)) (value_rows T values)
      else sort_key (\<lambda>i. Down (key (GetView values i))) (value_rows T values))"

definition expected_layout :: "NullPlacement \<Rightarrow> nat list \<Rightarrow> nat list \<Rightarrow> nat list \<Rightarrow> nat list" where
  "expected_layout pl vs nl nu = (if pl = AtStart then nu @ nl @ vs else vs @ nl @ nu)"

definition expected_partition :: "NullPlacement \<Rightarrow> nat \<Rightarrow> nat \<Rightarrow> NullPartitionResult" where
  "expected_partition pl nvals n =
     (if pl = AtStart
      then \<lparr>non_nulls_begin = n - nvals, non_nulls_end = n, nulls_begin = 0, nulls_end = n - nvals\<rparr>
      else \<lparr>non_nulls_begin = 0, non_nulls_end = nvals, nulls_begin = nvals, nulls_end = n\<rparr>)"

definition rank :: "'a list \<Rightarrow> nat \<Rightarrow> nat" where
  "rank vs j = length (filter (\<lambda>x. x = vs ! j) (take j vs))"

definition emit_value ::
  "CountSorter \<Rightarrow> NullPartitionResult \<Rightarrow> nat \<Rightarrow> int \<Rightarrow> EmitState \<Rightarrow> EmitState option" where
  "emit_value s p base v st =
     (case st of (index, count_nulls, c, buf) \<Rightarrow>
        if min_member s \<le> v \<and> base + nat (v - min_member s) < length c \<and>
           non_nulls_begin p + c ! (base + nat (v - min_member s)) < length buf
        then Some (index + 1, count_nulls,
                   c[base + nat (v - min_member s) := c ! (base + nat (v - min_member s)) + 1],
                   buf[non_nulls_begin p + c ! (base + nat (v - min_member s)) := index])
        else None)"

definition emit_null :: "NullPartitionResult \<Rightarrow> EmitState \<Rightarrow> EmitState option" where
  "emit_null p st =
     (case st of (index, count_nulls, c, buf) \<Rightarrow>
        if nulls_begin p + count_nulls < length buf
        then Some (index + 1, count_nulls + 1, c, buf[nulls_begin p + count_nulls := index])
        else None)"

definition slot ::
  "CountSorter \<Rightarrow> NullPartitionResult \<Rightarrow> nat \<Rightarrow> nat list \<Rightarrow> nat \<Rightarrow> int Array \<Rightarrow> nat \<Rightarrow> nat" where
  "slot s p base c cn vs j =
     (case vs ! j of
        None \<Rightarrow> nulls_begin p + cn + rank vs j
      | Some v \<Rightarrow> non_nulls_begin p + c ! (base + nat (v - min_member s)) + rank vs j)"

definition slot_ok :: "CountSorter \<Rightarrow> nat \<Rightarrow> nat list \<Rightarrow> int option \<Rightarrow> bool" where
  "slot_ok s base c x =
     (case x of None \<Rightarrow> True | Some v \<Rightarrow> min_member s \<le> v \<and> base + nat (v - min_member s) < length c)"

definition occ :: "int \<Rightarrow> int Array \<Rightarrow> nat \<Rightarrow> nat" where
  "occ mn vs k = length (filter (\<lambda>x. x = Some (mn + int k)) vs)"

definition count_in :: "int Array \<Rightarrow> int \<Rightarrow> int \<Rightarrow> nat" where
  "count_in vs lo hi =
     length (filter (\<lambda>x. case x of None \<Rightarrow> False | Some w \<Rightarrow> lo \<le> w \<and> w < hi) vs)"

definition in_bounds :: "int \<Rightarrow> int \<Rightarrow> int Array \<Rightarrow> bool" where
  "in_bounds mn mx vs = list_all (\<lambda>x. case x of None \<Rightarrow> True | Some v \<Rightarrow> mn \<le> v \<and> v \<le> mx) vs"

definition count_if :: "(int \<Rightarrow> bool) \<Rightarrow> int Array \<Rightarrow> nat" where
  "count_if P vs = length (filter (\<lambda>x. case x of None \<Rightarrow> False | Some w \<Rightarrow> P w) vs)"

definition non_null_values :: "'v Array \<Rightarrow> 'v list" where
  "non_null_values vs = [v. Some v \<leftarrow> vs]"

definition row_group :: "NullPlacement \<Rightarrow> 'v ValueType \<Rightarrow> 'v option \<Rightarrow> nat" where
  "row_group pl T x =
     (case x of
        None \<Rightarrow> (if pl = AtStart then 0 else 2)
      | Some v \<Rightarrow> (if is_null_like T v then 1 else if pl = AtStart then 2 else 0))"

definition in_output_order ::
  "'v ValueType \<Rightarrow> SortOrder \<Rightarrow> NullPlacement \<Rightarrow> 'v option \<Rightarrow> 'v option \<Rightarrow> bool" where
  "in_output_order T ord pl x y =
     (row_group pl T x < row_group pl T y \<or>
      (row_group pl T x = row_group pl T y \<and>
       (case (x, y) of
          (Some a, Some b) \<Rightarrow>
             is_null_like T a \<or>
             (if ord = Ascending then \<not> value_less T b a else \<not> value_less T a b)
        | _ \<Rightarrow> True)))"

definition b2i :: "bool \<Rightarrow> int" where
  "b2i b = (if b then 1 else 0)"

definition bool_value ::
  "NullPartitionResult \<Rightarrow> bool \<Rightarrow> nat \<times> nat list \<times> nat list \<Rightarrow> (nat \<times> nat list \<times> nat list) option" where
  "bool_value p v st =
     (case st of (index, c, buf) \<Rightarrow>
        if non_nulls_begin p + c ! (if v then 1 else 0) < length buf
        then Some (index + 1,
                   c[(if v then 1 else 0) := c ! (if v then 1 else 0) + 1],
                   buf[non_nulls_begin p + c ! (if v then 1 else 0) := index])
        else None)"

definition bool_null ::
  "NullPartitionResult \<Rightarrow> nat \<times> nat list \<times> nat list \<Rightarrow> (nat \<times> nat list \<times> nat list) option" where
  "bool_null p st =
     (case st of (index, c, buf) \<Rightarrow>
        if nulls_begin p + c ! 2 < length buf
        then Some (index + 1, c[2 := c ! 2 + 1], buf[nulls_begin p + c ! 2 := index])
        else None)"

fun fin_value :: "'a flt \<Rightarrow> 'a" where
  "fin_value (Fin a) = a"
| "fin_value NaN = undefined"

datatype Value = BoolValue bool | IntValue int | FloatValue "real flt" | BinaryValue string

fun logical_rows :: "ArrayData \<Rightarrow> Value Array" where
  "logical_rows (NullData n) = replicate n None"
| "logical_rows (BooleanData vs) = map (map_option BoolValue) vs"
| "logical_rows (IntegerData vs) = map (map_option IntValue) vs"
| "logical_rows (FloatingData vs) = map (map_option FloatValue) vs"
| "logical_rows (BinaryData vs) = map (map_option BinaryValue) vs"
| "logical_rows (NestedData n) = replicate n None"

fun logical_less :: "Value \<Rightarrow> Value \<Rightarrow> bool" where
  "logical_less (BoolValue a) (BoolValue b) = (a < b)"
| "logical_less (IntValue a) (IntValue b) = (a < b)"
| "logical_less (FloatValue a) (FloatValue b) = flt_less a b"
| "logical_less (BinaryValue a) (BinaryValue b) = (a < b)"
| "logical_less _ _ = False"

fun logical_isnan :: "Value \<Rightarrow> bool" where
  "logical_isnan (FloatValue x) = isnan x"
| "logical_isnan _ = False"

definition logical_type :: "Value ValueType" where
  "logical_type = \<lparr>value_less = logical_less, is_null_like = logical_isnan\<rparr>"

definition c_type_min :: "DataType \<Rightarrow> int" where
  "c_type_min t =
     (if t = INT8 then - (2 ^ 7) else if t = INT16 then - (2 ^ 15)
      else if t = INT32 then - (2 ^ 31) else if t = INT64 then - (2 ^ 63) else 0)"

definition c_type_max :: "DataType \<Rightarrow> int" where
  "c_type_max t =
     (if t = INT8 then 2 ^ 7 - 1 else if t = INT16 then 2 ^ 15 - 1
      else if t = INT32 then 2 ^ 31 - 1 else if t = INT64 then 2 ^ 63 - 1
      else if t = UINT8 then 2 ^ 8 - 1 else if t = UINT16 then 2 ^ 16 - 1
      else if t = UINT32 then 2 ^ 32 - 1 else 2 ^ 64 - 1)"

fun well_typed :: "DataType \<Rightarrow> ArrayData \<Rightarrow> bool" where
  "well_typed t (NullData n) = (t = NA)"
| "well_typed t (BooleanData vs) = (t = BOOL)"
| "well_typed t (IntegerData vs) =
     (if is_integer_type (GetPhysicalType t)
      then in_bounds (c_type_min (GetPhysicalType t)) (c_type_max (GetPhysicalType t)) vs
      else t = DECIMAL128 \<or> t = DECIMAL256)"
| "well_typed t (FloatingData vs) = (t = FLOAT \<or> t = DOUBLE)"
| "well_typed t (BinaryData vs) = (is_base_binary_type t \<or> t = FIXED_SIZE_BINARY)"
| "well_typed t (NestedData n) = False"

definition stable_output :: "'v Array \<Rightarrow> nat list \<Rightarrow> bool" where
  "stable_output vs out =
     (\<forall>c. filter (\<lambda>i. vs ! i = c) out = filter (\<lambda>i. vs ! i = c) [0..<length vs])"

definition sorted_output :: "'v ValueType \<Rightarrow> ArraySortOptions \<Rightarrow> 'v Array \<Rightarrow> nat list \<Rightarrow> bool" where
  "sorted_output T options vs out =
     (mset out = mset [0..<length vs] \<and>
      sorted_wrt (in_output_order T (order options) (null_placement options)) (map ((!) vs) out))"

text \<open>
  What a caller of a sorter and of the kernel observes. A sorter returns the sorted
  indices with a \<^verbatim>\<open>NullPartitionResult\<close>; the kernel returns \<^verbatim>\<open>Status::OK\<close> with the
  first \<open>n\<close> slots of the output buffer filled and the rest of it untouched. A
  \<^verbatim>\<open>NullPartitionResult\<close> over \<open>n\<close> slots is well formed when its two sub-ranges are
  adjacent, cover the slots \<open>0..<n\<close> and the null sub-range lies at the requested end.
\<close>

definition partition_ok :: "NullPlacement \<Rightarrow> nat \<Rightarrow> NullPartitionResult \<Rightarrow> bool" where
  "partition_ok pl n p =
     (if pl = AtStart
      then nulls_begin p = 0 \<and> nulls_end p = non_nulls_begin p \<and>
           non_nulls_begin p \<le> non_nulls_end p \<and> non_nulls_end p = n
      else non_nulls_begin p = 0 \<and> non_nulls_end p = nulls_begin p \<and>
           nulls_begin p \<le> nulls_end p \<and> nulls_end p = n)"

definition sorter_returns ::
  "(nat list \<times> NullPartitionResult) option \<Rightarrow> (nat list \<Rightarrow> NullPartitionResult \<Rightarrow> bool) \<Rightarrow> bool" where
  "sorter_returns r P = (case r of None \<Rightarrow> False | Some (ix, p) \<Rightarrow> P ix p)"

definition kernel_returns ::
  "(Status \<times> nat list) option \<Rightarrow> nat \<Rightarrow> nat list \<Rightarrow> (nat list \<Rightarrow> bool) \<Rightarrow> bool" where
  "kernel_returns r n out P =
     (case r of
        None \<Rightarrow> False
      | Some (status, buf) \<Rightarrow>
          status = OK \<and> length (take n buf) = n \<and> drop n buf = drop n out \<and> P (take n buf))"

text \<open>
  The postcondition of a partial sort around the position \<open>p\<close>: the buffer holds a
  permutation of the row indices, every row referenced up to \<open>p\<close> may precede the row
  referenced at \<open>p\<close> in the output order of the ascending sort, and the row at \<open>p\<close> may
  precede every row referenced from \<open>p\<close> on.
\<close>

definition partitioned_at :: "'v ValueType \<Rightarrow> NullPlacement \<Rightarrow> 'v Array \<Rightarrow> nat \<Rightarrow> nat list \<Rightarrow> bool" where
  "partitioned_at T pl vs p ix =
     (mset ix = mset [0..<length vs] \<and>
      list_all (\<lambda>i. (i \<le> p \<longrightarrow> in_output_order T Ascending pl (vs ! (ix ! i)) (vs ! (ix ! p))) \<and>
                    (p \<le> i \<longrightarrow> in_output_order T Ascending pl (vs ! (ix ! p)) (vs ! (ix ! i))))
        [0..<length vs])"

text \<open>
  The rows of an output are grouped when the groups of the null placement come in
  order: values, NaNs, nulls for \<^verbatim>\<open>AtEnd\<close>; nulls, NaNs, values for \<^verbatim>\<open>AtStart\<close>.
\<close>

definition grouped_output :: "'v ValueType \<Rightarrow> NullPlacement \<Rightarrow> 'v Array \<Rightarrow> nat list \<Rightarrow> bool" where
  "grouped_output T pl vs ix = sorted (map (\<lambda>i. row_group pl T (vs ! i)) ix)"

text \<open>
  The order of the specification, in its words: a null is greater than every non-null
  value, and a NaN is greater than every number and less than a null. A sequence read
  through an output is non-decreasing or non-increasing in this order.
\<close>

fun spec_less_eq :: "('a::linorder) flt option \<Rightarrow> 'a flt option \<Rightarrow> bool" where
  "spec_less_eq _ None = True"
| "spec_less_eq None (Some _) = False"
| "spec_less_eq (Some _) (Some NaN) = True"
| "spec_less_eq (Some NaN) (Some (Fin _)) = False"
| "spec_less_eq (Some (Fin a)) (Some (Fin b)) = (a \<le> b)"


definition spec_non_increasing :: "('a::linorder) flt Array \<Rightarrow> nat list \<Rightarrow> bool" where
  "spec_non_increasing vs ix = sorted_wrt (\<lambda>x y. spec_less_eq y x) (map ((!) vs) ix)"

section \<open>Lemmas\<close>

lemma insort_by_insort_key:
  fixes f :: "'a \<Rightarrow> 'k::linorder"
  assumes "\<forall>y \<in> set ys. cmp y x = (f y < f x)"
  shows "insort_by cmp x ys = insort_key f x ys"
  using assms by (induction ys) (auto simp: not_less)

lemma set_insort_by: "set (insort_by cmp x ys) = insert x (set ys)"
  by (induction ys) auto

lemma set_std_stable_sort: "set (std_stable_sort cmp xs) = set xs"
  by (induction xs) (auto simp: std_stable_sort_def set_insort_by)

lemma std_stable_sort_sort_key:
  fixes f :: "'a \<Rightarrow> 'k::linorder"
  assumes "\<forall>a \<in> set xs. \<forall>b \<in> set xs. cmp a b = (f a < f b)"
  shows "std_stable_sort cmp xs = sort_key f xs"
  using assms
proof (induction xs)
  case Nil
  then show ?case by (simp add: std_stable_sort_def)
next
  case (Cons x xs)
  have IH: "std_stable_sort cmp xs = sort_key f xs" using Cons by simp
  have "std_stable_sort cmp (x # xs) = insort_by cmp x (std_stable_sort cmp xs)"
    by (simp add: std_stable_sort_def)
  also have "\<dots> = insort_key f x (std_stable_sort cmp xs)"
    by (rule insort_by_insort_key) (use Cons.prems in \<open>simp add: set_std_stable_sort\<close>)
  finally show ?case using IH by simp
qed

lemma row_preds:
  "(\<not> IsNull values i \<and> \<not> is_null_like T (GetView values i)) = is_value_row T values i"
  "(\<not> IsNull values i \<and> is_null_like T (GetView values i)) = is_null_like_row T values i"
  by (auto simp: IsNull_def GetView_def is_value_row_def is_null_like_row_def split: option.splits)

lemma partition_range_stable_whole:
  "partition_range StablePartitioner xs 0 (length xs) pred =
     (filter pred xs @ filter (\<lambda>x. \<not> pred x) xs, length (filter pred xs))"
  by (simp add: partition_range_def StablePartitioner_def)

lemma length_filter_compl: "length (filter P xs) + length (filter (\<lambda>x. \<not> P x) xs) = length xs"
  by (induction xs) auto

lemma partition_range_stable_prefix:
  "partition_range StablePartitioner (ys @ zs) 0 (length ys) pred =
     (filter pred ys @ filter (\<lambda>x. \<not> pred x) ys @ zs, length (filter pred ys))"
  by (simp add: partition_range_def StablePartitioner_def)

lemma partition_range_stable_suffix:
  "partition_range StablePartitioner (ys @ zs) (length ys) (length ys + length zs) pred =
     (ys @ filter pred zs @ filter (\<lambda>x. \<not> pred x) zs, length ys + length (filter pred zs))"
  by (simp add: partition_range_def StablePartitioner_def)

lemma no_nulls_filter:
  assumes "null_count values = 0" "\<forall>i \<in> set xs. i < length values"
  shows "filter (IsNull values) xs = []"
proof -
  have "None \<notin> set values"
    using assms(1) by (auto simp: null_count_def filter_empty_conv)
  moreover have "values ! i \<in> set values" if "i \<in> set xs" for i
    using assms(2) that by simp
  ultimately have "values ! i \<noteq> None" if "i \<in> set xs" for i
    using that by metis
  then show ?thesis
    by (simp add: filter_empty_conv IsNull_def)
qed

lemma value_rows_le: "length (filter (is_value_row T values) xs) \<le> length (filter (\<lambda>i. \<not> IsNull values i) xs)"
proof -
  have "filter (is_value_row T values) xs = filter (\<lambda>i. \<not> is_null_like T (GetView values i)) (filter (\<lambda>i. \<not> IsNull values i) xs)"
    by (simp add: row_preds)
  then show ?thesis by (metis length_filter_le)
qed

lemma PartitionNulls_stable_AtEnd:
  assumes "\<forall>i \<in> set xs. i < length values"
  shows "PartitionNulls StablePartitioner T xs values 0 AtEnd =
     (filter (is_value_row T values) xs @ filter (is_null_like_row T values) xs @ filter (IsNull values) xs,
      \<lparr>non_nulls_begin = 0, non_nulls_end = length (filter (is_value_row T values) xs),
       nulls_begin = length (filter (is_value_row T values) xs), nulls_end = length xs\<rparr>)"
proof (cases "null_count values = 0")
  case True
  have nn: "filter (IsNull values) xs = []" using no_nulls_filter[OF True assms] .
  have v: "filter (is_value_row T values) xs = filter (\<lambda>i. \<not> is_null_like T (GetView values i)) xs"
    using nn by (auto simp: filter_empty_conv row_preds[symmetric] intro!: filter_cong)
  have n: "filter (is_null_like_row T values) xs = filter (\<lambda>i. is_null_like T (GetView values i)) xs"
    using nn by (auto simp: filter_empty_conv row_preds[symmetric] intro!: filter_cong)
  show ?thesis
    using True
    by (simp add: PartitionNulls_def PartitionNullsOnly_def PartitionNullLikes_def NoNulls_def
        partition_range_stable_whole NullsAtEnd_def nn v n)
next
  case False
  let ?nn = "filter (\<lambda>i. \<not> IsNull values i) xs"
  let ?v = "filter (is_value_row T values) xs"
  have s1: "PartitionNullsOnly StablePartitioner xs 0 (length xs) values 0 AtEnd =
      (?nn @ filter (IsNull values) xs, NullsAtEnd 0 (length xs) (length ?nn))"
    using False by (simp add: PartitionNullsOnly_def partition_range_stable_whole)
  have s2: "PartitionNullLikes StablePartitioner T (?nn @ filter (IsNull values) xs) 0 (length ?nn) values 0 AtEnd =
      (?v @ filter (is_null_like_row T values) xs @ filter (IsNull values) xs,
       NullsAtEnd 0 (length ?nn) (length ?v))"
    by (simp add: PartitionNullLikes_def partition_range_stable_prefix row_preds)
  have le1: "length ?v \<le> length ?nn" by (rule value_rows_le)
  have le2: "length ?nn \<le> length xs" by simp
  show ?thesis
    using le1 le2 by (simp add: PartitionNulls_def s1 NullsAtEnd_def s2[unfolded NullsAtEnd_def] min_def max_def)
qed

lemma PartitionNulls_stable_AtStart:
  assumes "\<forall>i \<in> set xs. i < length values"
  shows "PartitionNulls StablePartitioner T xs values 0 AtStart =
     (filter (IsNull values) xs @ filter (is_null_like_row T values) xs @ filter (is_value_row T values) xs,
      \<lparr>non_nulls_begin = length (filter (IsNull values) xs) + length (filter (is_null_like_row T values) xs),
       non_nulls_end = length xs,
       nulls_begin = 0,
       nulls_end = length (filter (IsNull values) xs) + length (filter (is_null_like_row T values) xs)\<rparr>)"
proof (cases "null_count values = 0")
  case True
  have nn: "filter (IsNull values) xs = []" using no_nulls_filter[OF True assms] .
  have v: "filter (is_value_row T values) xs = filter (\<lambda>i. \<not> is_null_like T (GetView values i)) xs"
    using nn by (auto simp: filter_empty_conv row_preds[symmetric] intro!: filter_cong)
  have n: "filter (is_null_like_row T values) xs = filter (\<lambda>i. is_null_like T (GetView values i)) xs"
    using nn by (auto simp: filter_empty_conv row_preds[symmetric] intro!: filter_cong)
  show ?thesis
    using True
    by (simp add: PartitionNulls_def PartitionNullsOnly_def PartitionNullLikes_def NoNulls_def
        partition_range_stable_whole NullsAtStart_def nn v n)
next
  case False
  let ?nn = "filter (\<lambda>i. \<not> IsNull values i) xs"
  let ?nu = "filter (IsNull values) xs"
  let ?nl = "filter (is_null_like_row T values) xs"
  have len: "length xs = length ?nu + length ?nn"
    using length_filter_compl[of "IsNull values" xs] by simp
  have s1: "PartitionNullsOnly StablePartitioner xs 0 (length xs) values 0 AtStart =
      (?nu @ ?nn, NullsAtStart 0 (length xs) (length ?nu))"
    using False by (simp add: PartitionNullsOnly_def partition_range_stable_whole)
  have s2: "PartitionNullLikes StablePartitioner T (?nu @ ?nn) (length ?nu) (length ?nu + length ?nn) values 0 AtStart =
      (?nu @ ?nl @ filter (is_value_row T values) xs,
       NullsAtStart (length ?nu) (length ?nu + length ?nn) (length ?nu + length ?nl))"
    by (simp add: PartitionNullLikes_def partition_range_stable_suffix row_preds conj_commute)
  show ?thesis
    unfolding PartitionNulls_def s1
    by (simp add: NullsAtStart_def len s2[unfolded NullsAtStart_def])
qed

lemma rows_partition_length:
  "length (value_rows T values) + length (null_like_rows T values) + length (null_rows values) = length values"
proof -
  have "length (filter (is_value_row T values) xs) + length (filter (is_null_like_row T values) xs)
      + length (filter (IsNull values) xs) = length xs" for xs
    by (induction xs) (auto simp: is_value_row_def is_null_like_row_def IsNull_def split: option.splits)
  from this[of "[0..<length values]"] show ?thesis
    by (simp add: value_rows_def null_like_rows_def null_rows_def)
qed

lemma on_range_prefix: "on_range 0 (length ys) f (ys @ zs) = f ys @ zs"
  by (simp add: on_range_def)

lemma on_range_suffix: "on_range (length ys) (length ys + length zs) f (ys @ zs) = ys @ f zs"
  by (simp add: on_range_def)

lemma value_row_not_null_like:
  "i \<in> set (value_rows T values) \<Longrightarrow> \<not> is_null_like T (GetView values i)"
  by (auto simp: value_rows_def is_value_row_def GetView_def split: option.splits)

lemma compare_sort_value_rows:
  fixes key :: "'v \<Rightarrow> 'k::linorder"
  assumes key: "\<And>a b. \<not> is_null_like T a \<Longrightarrow> \<not> is_null_like T b \<Longrightarrow> value_less T a b = (key a < key b)"
  shows "std_stable_sort (\<lambda>left right. value_less T (GetView values left) (GetView values right))
           (value_rows T values) = sorted_value_rows key T values Ascending"
    and "std_stable_sort (\<lambda>left right. value_less T (GetView values right) (GetView values left))
           (value_rows T values) = sorted_value_rows key T values Descending"
proof -
  show "std_stable_sort (\<lambda>left right. value_less T (GetView values left) (GetView values right))
           (value_rows T values) = sorted_value_rows key T values Ascending"
    unfolding sorted_value_rows_def
    by (simp, rule std_stable_sort_sort_key) (auto simp: key value_row_not_null_like)
  show "std_stable_sort (\<lambda>left right. value_less T (GetView values right) (GetView values left))
           (value_rows T values) = sorted_value_rows key T values Descending"
    unfolding sorted_value_rows_def
    by (simp, rule std_stable_sort_sort_key) (auto simp: key value_row_not_null_like)
qed

lemma ArrayCompareSorter_result:
  fixes key :: "'v \<Rightarrow> 'k::linorder"
  assumes key: "\<And>a b. \<not> is_null_like T a \<Longrightarrow> \<not> is_null_like T b \<Longrightarrow> value_less T a b = (key a < key b)"
  shows "ArrayCompareSorter T [0..<length values] values 0 options =
     Some (expected_layout (null_placement options)
             (sorted_value_rows key T values (order options)) (null_like_rows T values) (null_rows values),
           expected_partition (null_placement options) (length (value_rows T values)) (length values))"
proof -
  have inr: "\<forall>i \<in> set [0..<length values]. i < length values" by simp
  have guard: "list_all (\<lambda>ind. 0 \<le> ind \<and> ind - 0 < length values) [0..<length values]"
    by (simp add: list_all_iff)
  have len: "length (value_rows T values) + length (null_like_rows T values) + length (null_rows values) = length values"
    by (rule rows_partition_length)
  have lsort: "length (sorted_value_rows key T values ord) = length (value_rows T values)" for ord
    by (simp add: sorted_value_rows_def)
  show ?thesis
  proof (cases "null_placement options")
    case AtEnd
    have P: "PartitionNulls StablePartitioner T [0..<length values] values 0 AtEnd =
      (value_rows T values @ null_like_rows T values @ null_rows values,
       \<lparr>non_nulls_begin = 0, non_nulls_end = length (value_rows T values),
        nulls_begin = length (value_rows T values), nulls_end = length values\<rparr>)"
      using PartitionNulls_stable_AtEnd[OF inr, of T]
      by (simp add: value_rows_def null_like_rows_def null_rows_def)
    show ?thesis
      unfolding ArrayCompareSorter_def
      using guard AtEnd
      by (cases "order options")
         (simp_all add: P on_range_prefix compare_sort_value_rows[OF key]
           expected_layout_def expected_partition_def)
  next
    case AtStart
    have P: "PartitionNulls StablePartitioner T [0..<length values] values 0 AtStart =
      (null_rows values @ null_like_rows T values @ value_rows T values,
       \<lparr>non_nulls_begin = length (null_rows values) + length (null_like_rows T values),
        non_nulls_end = length values, nulls_begin = 0,
        nulls_end = length (null_rows values) + length (null_like_rows T values)\<rparr>)"
      using PartitionNulls_stable_AtStart[OF inr, of T]
      by (simp add: value_rows_def null_like_rows_def null_rows_def)
    have os: "on_range (length (null_rows values) + length (null_like_rows T values)) (length values) f
        (null_rows values @ null_like_rows T values @ value_rows T values)
        = null_rows values @ null_like_rows T values @ f (value_rows T values)" for f
      using on_range_suffix[of "null_rows values @ null_like_rows T values" "value_rows T values" f] len
      by (simp add: add.commute add.left_commute)
    have eqn: "length values - length (value_rows T values) = length (null_rows values) + length (null_like_rows T values)"
      using len by simp
    show ?thesis
      unfolding ArrayCompareSorter_def
      using guard AtStart
      by (cases "order options")
         (simp_all add: P os compare_sort_value_rows[OF key]
           expected_layout_def expected_partition_def eqn)
  qed
qed

lemma EmitIndices_exact_visit:
  "EmitIndices_exact s p values offset base counts indices =
     map_option (\<lambda>st. snd (snd (snd st)))
       (VisitRawValuesInline values (emit_value s p base) (emit_null p) (offset, 0, counts, indices))"
proof -
  have a: "(\<lambda>v (index, count_nulls, c, buf).
             if min_member s \<le> v \<and> base + nat (v - min_member s) < length c \<and>
                non_nulls_begin p + c ! (base + nat (v - min_member s)) < length buf
             then Some (index + 1, count_nulls,
                        c[base + nat (v - min_member s) := c ! (base + nat (v - min_member s)) + 1],
                        buf[non_nulls_begin p + c ! (base + nat (v - min_member s)) := index])
             else None) = emit_value s p base"
    by (intro ext) (simp add: emit_value_def)
  have b: "(\<lambda>(index, count_nulls, c, buf).
             if nulls_begin p + count_nulls < length buf
             then Some (index + 1, count_nulls + 1, c, buf[nulls_begin p + count_nulls := index])
             else None) = emit_null p"
    by (intro ext) (simp add: emit_null_def)
  have c: "(\<lambda>(index, count_nulls, c, buf). buf) = (\<lambda>st. snd (snd (snd st)))"
    by (intro ext) (simp add: split_def)
  show ?thesis
    unfolding EmitIndices_exact_def a b c ..
qed

lemma rank_Cons: "rank (x # vs) (Suc j) = (if x = vs ! j then 1 else 0) + rank vs j"
  by (simp add: rank_def)

lemma rank_0: "rank vs 0 = 0"
  by (simp add: rank_def)

lemma slot_Cons_None:
  "slot s p base c (Suc cn) vs j = slot s p base c cn (None # vs) (Suc j)"
  by (simp add: slot_def rank_Cons split: option.splits)

lemma slot_Cons_Some:
  assumes "slot_ok s base c (Some v)" "slot_ok s base c (vs ! j)"
  shows "slot s p base (c[base + nat (v - min_member s) := c ! (base + nat (v - min_member s)) + 1]) cn vs j
         = slot s p base c cn (Some v # vs) (Suc j)"
proof (cases "vs ! j")
  case None
  then show ?thesis by (simp add: slot_def rank_Cons)
next
  case (Some w)
  have "(nat (w - min_member s) = nat (v - min_member s)) = (w = v)"
    using assms Some by (auto simp: slot_ok_def)
  then show ?thesis
    using assms Some by (auto simp: slot_def rank_Cons slot_ok_def nth_list_update)
qed

lemma emit_visit:
  assumes "\<forall>j < length vs. slot s p base c cn vs j < length buf \<and> slot_ok s base c (vs ! j)"
    and "inj_on (slot s p base c cn vs) {..<length vs}"
  shows "\<exists>cn' c' buf'.
      VisitRawValuesInline vs (emit_value s p base) (emit_null p) (idx, cn, c, buf)
        = Some (idx + length vs, cn', c', buf') \<and>
      length buf' = length buf \<and>
      (\<forall>j < length vs. buf' ! slot s p base c cn vs j = idx + j) \<and>
      (\<forall>q < length buf. q \<notin> slot s p base c cn vs ` {..<length vs} \<longrightarrow> buf' ! q = buf ! q)"
  using assms
proof (induction vs arbitrary: idx cn c buf)
  case Nil
  then show ?case by simp
next
  case (Cons x vs)
  let ?sl = "slot s p base c cn (x # vs)"
  have b0: "?sl 0 < length buf" "slot_ok s base c x"
    using Cons.prems(1) by auto
  have bS: "?sl (Suc j) < length buf" "slot_ok s base c (vs ! j)" if "j < length vs" for j
    using Cons.prems(1) that by auto
  have inj0: "?sl (Suc j) \<noteq> ?sl 0" "?sl 0 \<noteq> ?sl (Suc j)" if "j < length vs" for j
    using Cons.prems(2) that by (auto simp: inj_on_def)
  have injS: "j = j'" if "j < length vs" "j' < length vs" "?sl (Suc j) = ?sl (Suc j')" for j j'
    using Cons.prems(2) that by (auto simp: inj_on_def)
  show ?case
  proof (cases x)
    case None
    let ?buf1 = "buf[nulls_begin p + cn := idx]"
    have s0: "?sl 0 = nulls_begin p + cn"
      by (simp add: slot_def None rank_0)
    have step: "VisitRawValuesInline (x # vs) (emit_value s p base) (emit_null p) (idx, cn, c, buf)
        = VisitRawValuesInline vs (emit_value s p base) (emit_null p) (idx + 1, Suc cn, c, ?buf1)"
      using b0 s0 by (simp add: None emit_null_def)
    have sl: "slot s p base c (Suc cn) vs j = ?sl (Suc j)" for j
      using slot_Cons_None[of s p base c cn vs j] None by simp
    have pre1: "\<forall>j < length vs. slot s p base c (Suc cn) vs j < length ?buf1 \<and> slot_ok s base c (vs ! j)"
      using bS by (simp add: sl)
    have pre2: "inj_on (slot s p base c (Suc cn) vs) {..<length vs}"
      using injS by (auto simp: inj_on_def sl)
    from Cons.IH[OF pre1 pre2, of "idx + 1"] obtain cn' c' buf' where
      r: "VisitRawValuesInline vs (emit_value s p base) (emit_null p) (idx + 1, Suc cn, c, ?buf1)
            = Some (idx + 1 + length vs, cn', c', buf')"
        "length buf' = length ?buf1"
        "\<forall>j < length vs. buf' ! slot s p base c (Suc cn) vs j = idx + 1 + j"
        "\<forall>q < length ?buf1. q \<notin> slot s p base c (Suc cn) vs ` {..<length vs} \<longrightarrow> buf' ! q = ?buf1 ! q"
      by blast
    have notin0: "?sl 0 \<notin> slot s p base c (Suc cn) vs ` {..<length vs}"
      using inj0 by (auto simp: sl)
    have at0: "buf' ! ?sl 0 = idx"
      using r(4) notin0 b0(1) s0 by simp
    have atS: "buf' ! ?sl (Suc j) = idx + Suc j" if "j < length vs" for j
      using r(3) that by (simp add: sl)
    have all: "\<forall>j < length (x # vs). buf' ! ?sl j = idx + j"
    proof (intro allI impI)
      fix j assume "j < length (x # vs)"
      then show "buf' ! ?sl j = idx + j"
        using at0 atS by (cases j) auto
    qed
    have img: "?sl ` {..<Suc (length vs)} = insert (?sl 0) (slot s p base c (Suc cn) vs ` {..<length vs})"
    proof -
      have "{..<Suc (length vs)} = insert 0 (Suc ` {..<length vs})"
        by (auto simp: lessThan_Suc_eq_insert_0 image_iff) 
      then show ?thesis by (simp add: image_image sl)
    qed
    have unch: "\<forall>q < length buf. q \<notin> ?sl ` {..<length (x # vs)} \<longrightarrow> buf' ! q = buf ! q"
      using r(4) by (auto simp: img s0)
    show ?thesis
      using step r(1,2) all unch by simp
  next
    case (Some v)
    let ?k = "base + nat (v - min_member s)"
    let ?c1 = "c[?k := Suc (c ! ?k)]"
    let ?buf1 = "buf[non_nulls_begin p + c ! ?k := idx]"
    have ok: "min_member s \<le> v" "?k < length c"
      using b0(2) Some by (auto simp: slot_ok_def)
    have s0: "?sl 0 = non_nulls_begin p + c ! ?k"
      by (simp add: slot_def Some rank_0)
    have step: "VisitRawValuesInline (x # vs) (emit_value s p base) (emit_null p) (idx, cn, c, buf)
        = VisitRawValuesInline vs (emit_value s p base) (emit_null p) (idx + 1, cn, ?c1, ?buf1)"
      using b0 s0 ok by (simp add: Some emit_value_def)
    have sl: "slot s p base ?c1 cn vs j = ?sl (Suc j)" if "j < length vs" for j
      using slot_Cons_Some[of s base c v vs j p cn] b0(2) bS(2)[OF that] Some by simp
    have ok1: "slot_ok s base ?c1 y = slot_ok s base c y" for y
      by (cases y) (simp_all add: slot_ok_def)
    have pre1: "\<forall>j < length vs. slot s p base ?c1 cn vs j < length ?buf1 \<and> slot_ok s base ?c1 (vs ! j)"
      using bS by (simp add: sl ok1)
    have pre2: "inj_on (slot s p base ?c1 cn vs) {..<length vs}"
      using injS by (auto simp: inj_on_def sl)
    from Cons.IH[OF pre1 pre2, of "idx + 1"] obtain cn' c' buf' where
      r: "VisitRawValuesInline vs (emit_value s p base) (emit_null p) (idx + 1, cn, ?c1, ?buf1)
            = Some (idx + 1 + length vs, cn', c', buf')"
        "length buf' = length ?buf1"
        "\<forall>j < length vs. buf' ! slot s p base ?c1 cn vs j = idx + 1 + j"
        "\<forall>q < length ?buf1. q \<notin> slot s p base ?c1 cn vs ` {..<length vs} \<longrightarrow> buf' ! q = ?buf1 ! q"
      by blast
    have img1: "slot s p base ?c1 cn vs ` {..<length vs} = (\<lambda>j. ?sl (Suc j)) ` {..<length vs}"
      by (rule image_cong) (auto simp: sl)
    have notin0: "?sl 0 \<notin> slot s p base ?c1 cn vs ` {..<length vs}"
      using inj0 by (auto simp: img1)
    have at0: "buf' ! ?sl 0 = idx"
      using r(4) notin0 b0(1) s0 by simp
    have atS: "buf' ! ?sl (Suc j) = idx + Suc j" if "j < length vs" for j
      using r(3) that by (simp add: sl)
    have all: "\<forall>j < length (x # vs). buf' ! ?sl j = idx + j"
    proof (intro allI impI)
      fix j assume "j < length (x # vs)"
      then show "buf' ! ?sl j = idx + j"
        using at0 atS by (cases j) auto
    qed
    have img: "?sl ` {..<Suc (length vs)} = insert (?sl 0) (slot s p base ?c1 cn vs ` {..<length vs})"
    proof -
      have "{..<Suc (length vs)} = insert 0 (Suc ` {..<length vs})"
        by (auto simp: lessThan_Suc_eq_insert_0 image_iff) 
      then show ?thesis by (simp add: image_image img1)
    qed
    have unch: "\<forall>q < length buf. q \<notin> ?sl ` {..<length (x # vs)} \<longrightarrow> buf' ! q = buf ! q"
      using r(4) by (auto simp: img s0)
    show ?thesis
      using step r(1,2) all unch by simp
  qed
qed

lemma occ_Cons_None: "occ mn (None # vs) k = occ mn vs k"
  by (simp add: occ_def)

lemma occ_Cons_Some:
  "mn \<le> v \<Longrightarrow> occ mn (Some v # vs) k = (if k = nat (v - mn) then 1 else 0) + occ mn vs k"
  by (auto simp: occ_def)

lemma CountValues_exact_result:
  assumes "\<forall>x \<in> set vs. slot_ok s base c x"
  shows "\<exists>c'. CountValues_exact s vs base c = Some c' \<and> length c' = length c \<and>
     (\<forall>i < length c. c' ! i = c ! i + (if base \<le> i then occ (min_member s) vs (i - base) else 0))"
  using assms
proof (induction vs arbitrary: c)
  case Nil
  then show ?case by (simp add: CountValues_exact_def occ_def)
next
  case (Cons x vs)
  show ?case
  proof (cases x)
    case None
    have "\<forall>x \<in> set vs. slot_ok s base c x" using Cons.prems by simp
    from Cons.IH[OF this] obtain c' where
      "CountValues_exact s vs base c = Some c'" "length c' = length c"
      "\<forall>i < length c. c' ! i = c ! i + (if base \<le> i then occ (min_member s) vs (i - base) else 0)"
      by blast
    then show ?thesis
      using None by (simp add: CountValues_exact_def occ_Cons_None)
  next
    case (Some v)
    let ?k = "base + nat (v - min_member s)"
    let ?c1 = "c[?k := Suc (c ! ?k)]"
    have ok: "min_member s \<le> v" "?k < length c"
      using Cons.prems Some by (auto simp: slot_ok_def)
    have "\<forall>x \<in> set vs. slot_ok s base ?c1 x"
      using Cons.prems by (auto simp: slot_ok_def split: option.splits)
    from Cons.IH[OF this] obtain c' where
      r: "CountValues_exact s vs base ?c1 = Some c'" "length c' = length ?c1"
      "\<forall>i < length ?c1. c' ! i = ?c1 ! i + (if base \<le> i then occ (min_member s) vs (i - base) else 0)"
      by blast
    have step: "CountValues_exact s (x # vs) base c = CountValues_exact s vs base ?c1"
      using ok Some by (simp add: CountValues_exact_def)
    have "c' ! i = c ! i + (if base \<le> i then occ (min_member s) (x # vs) (i - base) else 0)"
      if "i < length c" for i
    proof -
      have "(i - base = nat (v - min_member s)) = (i = ?k)" if "base \<le> i"
        using that by auto
      then show ?thesis
        using r(3) that ok Some by (auto simp: occ_Cons_Some nth_list_update)
    qed
    then show ?thesis
      using step r(1,2) by simp
  qed
qed

lemma accumulate_up_Suc:
  "accumulate_up (Suc n) c = add_slot (Suc n) n (accumulate_up n c)"
  by (simp add: accumulate_up_def)

lemma accumulate_up_result:
  assumes "n < length c"
  shows "\<exists>c'. accumulate_up n c = Some c' \<and> length c' = length c \<and>
     (\<forall>i < length c. c' ! i = (if i \<le> n then (\<Sum>j \<le> i. c ! j) else c ! i))"
  using assms
proof (induction n)
  case 0
  then show ?case by (simp add: accumulate_up_def)
next
  case (Suc n)
  then obtain c1 where
    r: "accumulate_up n c = Some c1" "length c1 = length c"
       "\<forall>i < length c. c1 ! i = (if i \<le> n then (\<Sum>j \<le> i. c ! j) else c ! i)"
    by (meson Suc_lessD)
  let ?c' = "c1[Suc n := c1 ! Suc n + c1 ! n]"
  have step: "accumulate_up (Suc n) c = Some ?c'"
    using Suc.prems r(1,2) by (simp add: accumulate_up_Suc add_slot_def)
  have "?c' ! i = (if i \<le> Suc n then (\<Sum>j \<le> i. c ! j) else c ! i)" if "i < length c" for i
  proof (cases "i = Suc n")
    case True
    have "c1 ! Suc n = c ! Suc n" "c1 ! n = (\<Sum>j \<le> n. c ! j)"
      using r(3) Suc.prems by auto
    then show ?thesis using True that r(2) by simp
  next
    case False
    then show ?thesis using r(2,3) that by auto
  qed
  then show ?case using step r(2) by simp
qed

lemma accumulate_down_Suc:
  "accumulate_down (Suc n) c =
     (case add_slot n (Suc n) (Some c) of None \<Rightarrow> fold (\<lambda>i. add_slot (i - 1) i) (rev [1..<Suc n]) None
      | Some c1 \<Rightarrow> accumulate_down n c1)"
  by (simp add: accumulate_down_def split: option.splits)

lemma sum_update_top:
  fixes c :: "nat list"
  assumes "i \<le> n" "n < length c"
  shows "(\<Sum>j = i..n. c[n := x] ! j) = (\<Sum>j = i..<n. c ! j) + x"
proof -
  have "{i..n} = insert n {i..<n}" using assms by auto
  then have "(\<Sum>j = i..n. c[n := x] ! j) = c[n := x] ! n + (\<Sum>j = i..<n. c[n := x] ! j)"
    by simp
  also have "(\<Sum>j = i..<n. c[n := x] ! j) = (\<Sum>j = i..<n. c ! j)"
    by (rule sum.cong) auto
  finally show ?thesis using assms by simp
qed

lemma accumulate_down_result:
  assumes "n < length c"
  shows "\<exists>c'. accumulate_down n c = Some c' \<and> length c' = length c \<and>
     (\<forall>i < length c. c' ! i = (if i \<le> n then (\<Sum>j = i..n. c ! j) else c ! i))"
  using assms
proof (induction n arbitrary: c)
  case 0
  then show ?case by (simp add: accumulate_down_def)
next
  case (Suc n)
  let ?c1 = "c[n := c ! n + c ! Suc n]"
  have step: "accumulate_down (Suc n) c = accumulate_down n ?c1"
    using Suc.prems by (simp add: accumulate_down_Suc add_slot_def)
  have "n < length ?c1" using Suc.prems by simp
  from Suc.IH[OF this] obtain c' where
    r: "accumulate_down n ?c1 = Some c'" "length c' = length c"
       "\<forall>i < length c. c' ! i = (if i \<le> n then (\<Sum>j = i..n. ?c1 ! j) else ?c1 ! i)"
    by auto
  have "c' ! i = (if i \<le> Suc n then (\<Sum>j = i..Suc n. c ! j) else c ! i)" if "i < length c" for i
  proof (cases "i \<le> n")
    case True
    have "(\<Sum>j = i..n. ?c1 ! j) = (\<Sum>j = i..<n. c ! j) + (c ! n + c ! Suc n)"
      using sum_update_top[OF True, of c] Suc.prems by simp
    also have "\<dots> = (\<Sum>j = i..Suc n. c ! j)"
    proof -
      have "{i..Suc n} = insert (Suc n) (insert n {i..<n})" using True by auto
      then show ?thesis by simp
    qed
    finally show ?thesis using r(3) that True by simp
  next
    case False
    then show ?thesis using r(3) that by (cases "i = Suc n") auto
  qed
  then show ?case using step r(1,2) by simp
qed

lemma count_in_Suc:
  assumes "lo \<le> hi"
  shows "count_in vs lo (hi + 1) = count_in vs lo hi + length (filter (\<lambda>x. x = Some hi) vs)"
  using assms by (induction vs) (auto simp: count_in_def split: option.splits)

lemma sum_occ_interval:
  assumes "a \<le> b"
  shows "(\<Sum>j = a..<b. occ mn vs j) = count_in vs (mn + int a) (mn + int b)"
  using assms
proof (induction b)
  case 0
  then show ?case by (simp add: count_in_def filter_empty_conv split: option.splits)
next
  case (Suc b)
  show ?case
  proof (cases "a = Suc b")
    case True
    then show ?thesis by (simp add: count_in_def filter_empty_conv split: option.splits)
  next
    case False
    then have ab: "a \<le> b" using Suc.prems by simp
    have "count_in vs (mn + int a) (mn + int b + 1) =
        count_in vs (mn + int a) (mn + int b) + occ mn vs b"
      using count_in_Suc[of "mn + int a" "mn + int b" vs] ab by (simp add: occ_def)
    then show ?thesis using Suc.IH[OF ab] ab by (simp add: add.commute add.left_commute)
  qed
qed

lemma nth_filter_upt:
  assumes "P j" "j < n"
  shows "filter P [0..<n] ! length (filter P [0..<j]) = j"
    and "length (filter P [0..<j]) < length (filter P [0..<n])"
proof -
  have "[0..<j + (n - j)] = [0..<j] @ [j..<j + (n - j)]"
    by (rule upt_add_eq_append) simp
  moreover have "[j..<j + (n - j)] = j # [Suc j..<n]"
    using assms(2) by (simp add: upt_conv_Cons)
  ultimately have "[0..<n] = [0..<j] @ j # [Suc j..<n]"
    using assms(2) by simp
  then have "filter P [0..<n] = filter P [0..<j] @ j # filter P [Suc j..<n]"
    using assms(1) by simp
  then show "filter P [0..<n] ! length (filter P [0..<j]) = j"
    and "length (filter P [0..<j]) < length (filter P [0..<n])"
    by simp_all
qed

lemma take_as_map_nth:
  assumes "j \<le> length xs"
  shows "take j xs = map ((!) xs) [0..<j]"
proof -
  have "take j xs = take j (map ((!) xs) [0..<length xs])"
    by (simp add: map_nth)
  also have "\<dots> = map ((!) xs) (take j [0..<length xs])"
    by (rule take_map)
  also have "take j [0..<length xs] = [0..<j]"
    using assms by simp
  finally show ?thesis .
qed

lemma sorted_map_filter_eq:
  fixes f :: "'a \<Rightarrow> 'k::linorder"
  shows "sorted (map f (filter (\<lambda>x. f x = k) xs))"
  by (induction xs) auto

lemma length_filter_index:
  assumes "j \<le> length xs"
  shows "length (filter (\<lambda>i. P (xs ! i)) [0..<j]) = length (filter P (take j xs))"
proof -
  have "filter P (take j xs) = map ((!) xs) (filter (P \<circ> (!) xs) [0..<j])"
    by (simp add: take_as_map_nth[OF assms] filter_map)
  then show ?thesis by (simp add: comp_def)
qed

lemma sort_key_split3:
  fixes f :: "'a \<Rightarrow> 'k::linorder"
  shows "sort_key f xs =
     sort_key f (filter (\<lambda>x. f x < k) xs) @ filter (\<lambda>x. f x = k) xs @ sort_key f (filter (\<lambda>x. k < f x) xs)"
    (is "_ = ?rhs")
proof (rule properties_for_sort_key)
  show "mset ?rhs = mset xs"
    by (induction xs) auto
  show "sorted (map f ?rhs)"
    by (auto simp: sorted_append sorted_map_filter_eq intro: less_imp_le)
  fix a assume "a \<in> set ?rhs"
  have stab: "filter (\<lambda>x. f a = f x) (sort_key f ys) = filter (\<lambda>x. f a = f x) ys" for ys
    using sort_key_stable[of f "f a" ys] by (simp add: eq_commute)
  have A: "filter (\<lambda>x. P x \<and> f a = f x) xs = filter (\<lambda>x. f a = f x) xs"
    if "\<And>x. f a = f x \<Longrightarrow> P x" for P
    by (rule filter_cong) (use that in auto)
  have B: "filter (\<lambda>x. P x \<and> f a = f x) xs = []"
    if "\<And>x. f a = f x \<Longrightarrow> \<not> P x" for P
    using that by (auto simp: filter_empty_conv)
  consider "f a < k" | "f a = k" | "k < f a" by (cases rule: linorder_cases)
  then show "filter (\<lambda>x. f a = f x) ?rhs = filter (\<lambda>x. f a = f x) xs"
  proof cases
    case 1
    have "filter (\<lambda>x. f x < k \<and> f a = f x) xs = filter (\<lambda>x. f a = f x) xs"
      by (rule A) (use 1 in auto)
    moreover have "filter (\<lambda>x. f x = k \<and> f a = f x) xs = []"
      by (rule B) (use 1 in auto)
    moreover have "filter (\<lambda>x. k < f x \<and> f a = f x) xs = []"
      by (rule B) (use 1 in auto)
    ultimately show ?thesis by (simp add: stab)
  next
    case 2
    have "filter (\<lambda>x. f x < k \<and> f a = f x) xs = []"
      by (rule B) (use 2 in auto)
    moreover have "filter (\<lambda>x. f x = k \<and> f a = f x) xs = filter (\<lambda>x. f a = f x) xs"
      by (rule A) (use 2 in auto)
    moreover have "filter (\<lambda>x. k < f x \<and> f a = f x) xs = []"
      by (rule B) (use 2 in auto)
    ultimately show ?thesis by (simp add: stab)
  next
    case 3
    have "filter (\<lambda>x. f x < k \<and> f a = f x) xs = []"
      by (rule B) (use 3 in auto)
    moreover have "filter (\<lambda>x. f x = k \<and> f a = f x) xs = []"
      by (rule B) (use 3 in auto)
    moreover have "filter (\<lambda>x. k < f x \<and> f a = f x) xs = filter (\<lambda>x. f a = f x) xs"
      by (rule A) (use 3 in auto)
    ultimately show ?thesis by (simp add: stab)
  qed
qed

lemma pos_sorted:
  fixes f :: "nat \<Rightarrow> 'k::linorder"
  assumes "Q j" "j < n"
  shows "sort_key f (filter Q [0..<n]) !
           (length (filter (\<lambda>i. Q i \<and> f i < f j) [0..<n]) + length (filter (\<lambda>i. Q i \<and> f i = f j) [0..<j])) = j"
    and "length (filter (\<lambda>i. Q i \<and> f i < f j) [0..<n]) + length (filter (\<lambda>i. Q i \<and> f i = f j) [0..<j])
           < length (filter Q [0..<n])"
proof -
  let ?xs = "filter Q [0..<n]"
  let ?L = "filter (\<lambda>i. Q i \<and> f i < f j) [0..<n]"
  let ?E = "filter (\<lambda>i. Q i \<and> f i = f j) [0..<n]"
  let ?G = "filter (\<lambda>i. Q i \<and> f j < f i) [0..<n]"
  let ?r = "length (filter (\<lambda>i. Q i \<and> f i = f j) [0..<j])"
  have split: "sort_key f ?xs = sort_key f ?L @ ?E @ sort_key f ?G"
    using sort_key_split3[of f ?xs "f j"] by simp
  have e: "?E ! ?r = j" "?r < length ?E"
    using nth_filter_upt[of "\<lambda>i. Q i \<and> f i = f j" j n] assms by simp_all
  show "sort_key f ?xs ! (length ?L + ?r) = j"
    using e by (simp add: split nth_append)
  have "length ?xs = length ?L + length ?E + length ?G"
    using arg_cong[OF split, of length] by simp
  then show "length ?L + ?r < length ?xs"
    using e(2) by simp
qed

lemma ordered_value_row [simp]: "is_value_row ordered_type values i = (values ! i \<noteq> None)"
  by (simp add: is_value_row_def ordered_type_def split: option.splits)

lemma ordered_null_like_rows [simp]: "null_like_rows ordered_type values = []"
  by (simp add: null_like_rows_def is_null_like_row_def ordered_type_def split: option.splits)

lemma rank_index: "j \<le> length vs \<Longrightarrow> rank vs j = length (filter (\<lambda>i. vs ! i = vs ! j) [0..<j])"
  using length_filter_index[of j vs "\<lambda>x. x = vs ! j"] by (simp add: rank_def)

lemma null_row_position:
  assumes "j < length values" "values ! j = None"
  shows "null_rows values ! rank values j = j" "rank values j < length (null_rows values)"
proof -
  have r: "rank values j = length (filter (IsNull values) [0..<j])"
    using rank_index[of j "values"] assms by (simp add: IsNull_def[abs_def])
  have "IsNull values j" using assms by (simp add: IsNull_def)
  from nth_filter_upt[of "IsNull values" j "length values", OF this assms(1)]
  show "null_rows values ! rank values j = j" "rank values j < length (null_rows values)"
    by (simp_all add: r null_rows_def)
qed

lemma layout_value_position:
  assumes "r < length S" "length S + length nu = n"
  shows "expected_layout pl S [] nu ! (non_nulls_begin (expected_partition pl (length S) n) + r) = S ! r"
    and "non_nulls_begin (expected_partition pl (length S) n) + r < n"
  using assms by (auto simp: expected_layout_def expected_partition_def nth_append)

lemma layout_null_position:
  assumes "r < length nu" "length S + length nu = n"
  shows "expected_layout pl S [] nu ! (nulls_begin (expected_partition pl (length S) n) + r) = nu ! r"
    and "nulls_begin (expected_partition pl (length S) n) + r < n"
  using assms by (auto simp: expected_layout_def expected_partition_def nth_append)

lemma mset_rows_ordered:
  "mset (value_rows ordered_type values) + mset (null_rows values) = mset [0..<length values]"
proof -
  have "mset (filter (is_value_row ordered_type values) xs) + mset (filter (IsNull values) xs) = mset xs" for xs
    by (induction xs) (auto simp: IsNull_def)
  then show ?thesis unfolding value_rows_def null_rows_def .
qed

lemma count_sort_emit:
  assumes c_ok: "\<And>v. Some v \<in> set values \<Longrightarrow>
        min_member s \<le> v \<and> base + nat (v - min_member s) < length c \<and>
        c ! (base + nat (v - min_member s)) = start v"
    and pos: "\<And>j v. j < (length values) \<Longrightarrow> values ! j = Some v \<Longrightarrow>
        start v + rank values j < length S \<and> S ! (start v + rank values j) = j"
    and S: "mset S = mset (value_rows ordered_type values)"
    and p: "p = expected_partition pl (length S) (length values)"
  shows "EmitIndices_exact s p values 0 base c [0..<(length values)] = Some (expected_layout pl S [] (null_rows values))"
proof -
  let ?T = "expected_layout pl S [] (null_rows values)"
  let ?nu = "null_rows values"
  let ?sl = "slot s p base c 0 values"
  have msetT: "mset ?T = mset [0..<(length values)]"
    using mset_rows_ordered[of "values"] S by (simp add: expected_layout_def add.commute)
  have lenT: "length ?T = (length values)"
    using arg_cong[OF msetT, of size] by simp
  have lenS: "length S + length ?nu = (length values)"
    using lenT by (simp add: expected_layout_def split: if_splits)
  have distT: "distinct ?T"
  proof -
    have "distinct ?T = distinct [0..<length values]"
      by (rule mset_eq_imp_distinct_iff[OF msetT])
    then show ?thesis by simp
  qed
  have setT: "set ?T = {0..<length values}"
  proof -
    have "set ?T = set [0..<length values]"
      by (rule mset_eq_setD[OF msetT])
    then show ?thesis by simp
  qed
  have sl: "?sl j < length values \<and> ?T ! ?sl j = j \<and> slot_ok s base c (values ! j)"
    if "j < length values" for j
  proof (cases "values ! j")
    case None
    have e: "?sl j = nulls_begin p + rank values j"
      by (simp add: slot_def None)
    have np: "null_rows values ! rank values j = j" "rank values j < length (null_rows values)"
      using null_row_position[OF that None] by blast+
    have "?T ! (nulls_begin p + rank values j) = ?nu ! rank values j"
      "nulls_begin p + rank values j < length values"
      unfolding p using layout_null_position[OF np(2) lenS, of pl] by blast+
    then show ?thesis
      using np(1) by (simp add: e slot_ok_def None)
  next
    case (Some v)
    have mem: "Some v \<in> set values"
      using that Some nth_mem[of j "values"] by simp
    have e: "?sl j = non_nulls_begin p + (start v + rank values j)"
      using c_ok[OF mem] by (simp add: slot_def Some)
    have ps: "start v + rank values j < length S" "S ! (start v + rank values j) = j"
      using pos[OF that Some] by blast+
    have "?T ! (non_nulls_begin p + (start v + rank values j)) = S ! (start v + rank values j)"
      "non_nulls_begin p + (start v + rank values j) < length values"
      unfolding p using layout_value_position[OF ps(1) lenS, of pl] by blast+
    then show ?thesis
      using ps(2) c_ok[OF mem] by (simp add: e slot_ok_def Some)
  qed
  have inj: "inj_on ?sl {..<length values}"
  proof (rule inj_onI)
    fix a b assume ab: "a \<in> {..<length values}" "b \<in> {..<length values}" "?sl a = ?sl b"
    have "a = ?T ! ?sl a" using sl[of a] ab(1) by simp
    also have "\<dots> = ?T ! ?sl b" using ab(3) by simp
    also have "\<dots> = b" using sl[of b] ab(2) by simp
    finally show "a = b" .
  qed
  have pre: "\<forall>j < length values. ?sl j < length [0..<(length values)] \<and> slot_ok s base c (values ! j)"
    using sl by simp
  from emit_visit[OF pre inj, of 0] obtain cn' c' buf' where
    r: "VisitRawValuesInline values (emit_value s p base) (emit_null p) (0, 0, c, [0..<(length values)])
          = Some (0 + length values, cn', c', buf')"
       "length buf' = length [0..<(length values)]"
       "\<forall>j < length values. buf' ! ?sl j = 0 + j"
    by blast
  have "buf' = ?T"
  proof (rule nth_equalityI)
    show "length buf' = length ?T" using r(2) lenT by simp
    fix q assume "q < length buf'"
    then have q: "q < (length values)" using r(2) by simp
    let ?j = "?T ! q"
    have "?j \<in> set ?T" using q lenT by simp
    then have j: "?j < length values" using setT by simp
    have "?T ! ?sl ?j = ?T ! q" "?sl ?j < (length values)" using sl[OF j] by simp_all
    then have eq: "?sl ?j = q"
      using distT q lenT by (simp add: nth_eq_iff_index_eq)
    have "buf' ! ?sl ?j = ?j"
      using r(3) j by simp
    then show "buf' ! q = ?T ! q"
      unfolding eq .
  qed
  then show ?thesis
    using r(1) by (simp add: EmitIndices_exact_visit)
qed

lemma in_boundsD: "in_bounds mn mx vs \<Longrightarrow> Some v \<in> set vs \<Longrightarrow> mn \<le> v \<and> v \<le> mx"
  by (auto simp: in_bounds_def list_all_iff split: option.splits)

lemma count_in_count_if:
  assumes "in_bounds mn mx vs" "\<And>w. mn \<le> w \<Longrightarrow> w \<le> mx \<Longrightarrow> (lo \<le> w \<and> w < hi) = P w"
  shows "count_in vs lo hi = count_if P vs"
proof -
  have "filter (\<lambda>x. case x of None \<Rightarrow> False | Some w \<Rightarrow> lo \<le> w \<and> w < hi) vs
      = filter (\<lambda>x. case x of None \<Rightarrow> False | Some w \<Rightarrow> P w) vs"
    by (rule filter_cong) (use assms in \<open>auto dest: in_boundsD split: option.splits\<close>)
  then show ?thesis by (simp add: count_in_def count_if_def)
qed

lemma count_if_index:
  "length (filter (\<lambda>i. case vs ! i of None \<Rightarrow> False | Some w \<Rightarrow> P w) [0..<length vs]) = count_if P vs"
  using length_filter_index[of "length vs" vs "\<lambda>x. case x of None \<Rightarrow> False | Some w \<Rightarrow> P w"]
  by (simp add: count_if_def)

lemma length_value_rows_ordered: "length (value_rows ordered_type vs) = count_if (\<lambda>_. True) vs"
proof -
  have "is_value_row ordered_type vs = (\<lambda>i. case vs ! i of None \<Rightarrow> False | Some w \<Rightarrow> True)"
    by (intro ext) (simp split: option.splits)
  then show ?thesis
    using count_if_index[where vs=vs and P="\<lambda>_. True"] by (simp add: value_rows_def)
qed

lemma SetMinMax_exact_simps:
  assumes "mn \<le> mx" "mx - mn < 2 ^ 32 - 3"
  shows "min_member (SetMinMax_exact mn mx) = mn"
    and "value_range_member (SetMinMax_exact mn mx) = nat (mx - mn) + 1"
    and "(2 + value_range_member (SetMinMax_exact mn mx)) mod 2 ^ 32 = nat (mx - mn) + 3"
proof -
  have a: "(mx - mn) mod 4294967296 = mx - mn"
    using assms by simp
  have b: "nat (mx - mn) + 3 < 4294967296"
    using assms by simp
  show "min_member (SetMinMax_exact mn mx) = mn" by (simp add: SetMinMax_exact_def)
  show c: "value_range_member (SetMinMax_exact mn mx) = nat (mx - mn) + 1"
    using b by (simp add: SetMinMax_exact_def a)
  show "(2 + value_range_member (SetMinMax_exact mn mx)) mod 2 ^ 32 = nat (mx - mn) + 3"
    using b by (simp add: c)
qed

lemma sum_shift_one:
  fixes g :: "nat \<Rightarrow> nat"
  shows "(\<Sum>j \<le> i. (if 1 \<le> j then g (j - 1) else 0)) = (\<Sum>j = 0..<i. g j)"
  by (induction i) simp_all

lemma sum_shift_interval:
  fixes g :: "nat \<Rightarrow> nat"
  shows "(\<Sum>j = a..b. g j) = (\<Sum>j = a..<Suc b. g j)"
  by (simp add: atLeastLessThanSuc_atLeastAtMost)

lemma value_position_asc:
  assumes "j < length vs" "vs ! j = Some v"
  shows "count_if (\<lambda>w. w < v) vs + rank vs j < length (sorted_value_rows id ordered_type vs Ascending)"
    and "sorted_value_rows id ordered_type vs Ascending ! (count_if (\<lambda>w. w < v) vs + rank vs j) = j"
proof -
  let ?Q = "is_value_row ordered_type vs"
  let ?f = "\<lambda>i. id (GetView vs i)"
  have Q: "?Q j" using assms by simp
  have l: "(\<lambda>i. ?Q i \<and> ?f i < ?f j) = (\<lambda>i. case vs ! i of None \<Rightarrow> False | Some w \<Rightarrow> w < v)"
    using assms by (intro ext) (auto simp: GetView_def split: option.splits)
  have e: "(\<lambda>i. ?Q i \<and> ?f i = ?f j) = (\<lambda>i. vs ! i = vs ! j)"
    using assms by (intro ext) (auto simp: GetView_def split: option.splits)
  have r: "rank vs j = length (filter (\<lambda>i. vs ! i = vs ! j) [0..<j])"
    using rank_index[of j vs] assms by simp
  from pos_sorted[of ?Q j "length vs" ?f, OF Q assms(1)]
  show "count_if (\<lambda>w. w < v) vs + rank vs j < length (sorted_value_rows id ordered_type vs Ascending)"
    and "sorted_value_rows id ordered_type vs Ascending ! (count_if (\<lambda>w. w < v) vs + rank vs j) = j"
    unfolding l e by (simp_all add: sorted_value_rows_def value_rows_def count_if_index r)
qed

lemma value_position_desc:
  assumes "j < length vs" "vs ! j = Some v"
  shows "count_if (\<lambda>w. v < w) vs + rank vs j < length (sorted_value_rows id ordered_type vs Descending)"
    and "sorted_value_rows id ordered_type vs Descending ! (count_if (\<lambda>w. v < w) vs + rank vs j) = j"
proof -
  let ?Q = "is_value_row ordered_type vs"
  let ?f = "\<lambda>i. Down (id (GetView vs i))"
  have Q: "?Q j" using assms by simp
  have l: "(\<lambda>i. ?Q i \<and> ?f i < ?f j) = (\<lambda>i. case vs ! i of None \<Rightarrow> False | Some w \<Rightarrow> v < w)"
    using assms by (intro ext) (auto simp: GetView_def split: option.splits)
  have e: "(\<lambda>i. ?Q i \<and> ?f i = ?f j) = (\<lambda>i. vs ! i = vs ! j)"
    using assms by (intro ext) (auto simp: GetView_def split: option.splits)
  have r: "rank vs j = length (filter (\<lambda>i. vs ! i = vs ! j) [0..<j])"
    using rank_index[of j vs] assms by simp
  from pos_sorted[of ?Q j "length vs" ?f, OF Q assms(1)]
  show "count_if (\<lambda>w. v < w) vs + rank vs j < length (sorted_value_rows id ordered_type vs Descending)"
    and "sorted_value_rows id ordered_type vs Descending ! (count_if (\<lambda>w. v < w) vs + rank vs j) = j"
    unfolding l e by (simp_all add: sorted_value_rows_def value_rows_def count_if_index r)
qed

lemma length_sorted_value_rows [simp]:
  "length (sorted_value_rows key T vs ord) = length (value_rows T vs)"
  by (simp add: sorted_value_rows_def)

lemma mset_sorted_value_rows [simp]:
  "mset (sorted_value_rows key T vs ord) = mset (value_rows T vs)"
  by (simp add: sorted_value_rows_def)

lemma length_value_rows_le: "length (value_rows T vs) \<le> length vs"
  using length_filter_le[of "is_value_row T vs" "[0..<length vs]"] by (simp add: value_rows_def)

lemma partition_result_eq:
  assumes "nv \<le> n"
  shows "(if pl = AtStart then NullsAtStart 0 n (n - nv) else NullsAtEnd 0 n (0 + nv))
         = expected_partition pl nv n"
  using assms by (simp add: NullsAtStart_def NullsAtEnd_def expected_partition_def)

lemma SortInternal_exact_ascending:
  assumes B1: "mn \<le> mx" and B2: "mx - mn < 2 ^ 32 - 3" and B3: "in_bounds mn mx vs"
    and asc: "order options = Ascending"
  shows "SortInternal_exact (SetMinMax_exact mn mx) [0..<length vs] vs 0 options =
     Some (expected_layout (null_placement options)
             (sorted_value_rows id ordered_type vs Ascending) [] (null_rows vs),
           expected_partition (null_placement options) (length (value_rows ordered_type vs)) (length vs))"
proof -
  let ?s = "SetMinMax_exact mn mx"
  let ?R = "nat (mx - mn) + 1"
  let ?nv = "length (value_rows ordered_type vs)"
  let ?p = "expected_partition (null_placement options) ?nv (length vs)"
  let ?S = "sorted_value_rows id ordered_type vs Ascending"
  note sm = SetMinMax_exact_simps[OF B1 B2]
  define c0 where "c0 = replicate (nat (mx - mn) + 3) (0::nat)"
  have c0: "length c0 = ?R + 2" "\<And>i. i < ?R + 2 \<Longrightarrow> c0 ! i = 0"
  proof -
    show "length c0 = ?R + 2" by (simp add: c0_def)
    fix i assume "i < ?R + 2"
    then have "i < nat (mx - mn) + 3" by simp
    then show "c0 ! i = 0" unfolding c0_def by (rule nth_replicate)
  qed
  have c0eq: "replicate ((2 + value_range_member ?s) mod 2 ^ 32) 0 = c0"
    unfolding sm(3) c0_def ..
  have vb: "mn \<le> v \<and> v \<le> mx \<and> nat (v - mn) < ?R" if "Some v \<in> set vs" for v
    using in_boundsD[OF B3 that] by auto
  have ok0: "\<forall>x \<in> set vs. slot_ok ?s 1 c0 x"
  proof
    fix x assume x: "x \<in> set vs"
    show "slot_ok ?s 1 c0 x"
    proof (cases x)
      case None
      then show ?thesis by (simp add: slot_ok_def)
    next
      case (Some v)
      then show ?thesis using vb[of v] x by (simp add: slot_ok_def sm c0)
    qed
  qed
  from CountValues_exact_result[OF ok0] obtain c1 where
    raw: "CountValues_exact ?s vs 1 c0 = Some c1" "length c1 = length c0"
        "\<forall>i < length c0. c1 ! i = c0 ! i + (if 1 \<le> i then occ (min_member ?s) vs (i - 1) else 0)"
    by blast
  have c1: "CountValues_exact ?s vs 1 c0 = Some c1" "length c1 = ?R + 2"
        "\<forall>i < ?R + 2. c1 ! i = (if 1 \<le> i then occ mn vs (i - 1) else 0)"
    using raw c0 by (simp_all add: sm)
  have "?R < length c1" using c1(2) by simp
  from accumulate_up_result[OF this] obtain c2 where
    c2: "accumulate_up ?R c1 = Some c2" "length c2 = ?R + 2"
        "\<forall>i < ?R + 2. c2 ! i = (if i \<le> ?R then (\<Sum>j \<le> i. c1 ! j) else c1 ! i)"
    using c1(2) by auto
  have cum: "c2 ! i = count_in vs mn (mn + int i)" if "i \<le> ?R" for i
  proof -
    have "c2 ! i = (\<Sum>j \<le> i. c1 ! j)" using c2(3) that by simp
    also have "\<dots> = (\<Sum>j \<le> i. (if 1 \<le> j then occ mn vs (j - 1) else 0))"
      by (rule sum.cong) (use c1(3) that in auto)
    also have "\<dots> = (\<Sum>j = 0..<i. occ mn vs j)" by (rule sum_shift_one)
    also have "\<dots> = count_in vs (mn + int 0) (mn + int i)" by (rule sum_occ_interval) simp
    finally show ?thesis by simp
  qed
  have total: "c2 ! ?R = ?nv"
  proof -
    have "count_in vs mn (mn + int ?R) = count_if (\<lambda>_. True) vs"
      by (rule count_in_count_if[OF B3]) (use B1 in auto)
    then show ?thesis using cum[of ?R] by (simp add: length_value_rows_ordered)
  qed
  have nv: "?nv \<le> length vs" by (rule length_value_rows_le)
  have start: "min_member ?s \<le> v \<and> 0 + nat (v - min_member ?s) < length c2 \<and>
      c2 ! (0 + nat (v - min_member ?s)) = count_if (\<lambda>w. w < v) vs" if "Some v \<in> set vs" for v
  proof -
    have "count_in vs mn (mn + int (nat (v - mn))) = count_if (\<lambda>w. w < v) vs"
      by (rule count_in_count_if[OF B3]) (use vb[OF that] in auto)
    then show ?thesis using vb[OF that] cum[of "nat (v - mn)"] c2(2) by (simp add: sm)
  qed
  have emit: "EmitIndices_exact ?s ?p vs 0 0 c2 [0..<length vs] =
      Some (expected_layout (null_placement options) ?S [] (null_rows vs))"
    by (rule count_sort_emit[where start = "\<lambda>v. count_if (\<lambda>w. w < v) vs"])
       (use start value_position_asc in \<open>auto\<close>)
  show ?thesis
    unfolding SortInternal_exact_def Let_def
    unfolding c0eq
    unfolding sm(2)
    using asc c1(1) c2(1,2) total nv emit
    by (simp add: partition_result_eq)
qed

lemma SortInternal_exact_descending:
  assumes B1: "mn \<le> mx" and B2: "mx - mn < 2 ^ 32 - 3" and B3: "in_bounds mn mx vs"
    and desc: "order options = Descending"
  shows "SortInternal_exact (SetMinMax_exact mn mx) [0..<length vs] vs 0 options =
     Some (expected_layout (null_placement options)
             (sorted_value_rows id ordered_type vs Descending) [] (null_rows vs),
           expected_partition (null_placement options) (length (value_rows ordered_type vs)) (length vs))"
proof -
  let ?s = "SetMinMax_exact mn mx"
  let ?R = "nat (mx - mn) + 1"
  let ?nv = "length (value_rows ordered_type vs)"
  let ?p = "expected_partition (null_placement options) ?nv (length vs)"
  let ?S = "sorted_value_rows id ordered_type vs Descending"
  note sm = SetMinMax_exact_simps[OF B1 B2]
  define c0 where "c0 = replicate (nat (mx - mn) + 3) (0::nat)"
  have c0: "length c0 = ?R + 2" "\<And>i. i < ?R + 2 \<Longrightarrow> c0 ! i = 0"
  proof -
    show "length c0 = ?R + 2" by (simp add: c0_def)
    fix i assume "i < ?R + 2"
    then have "i < nat (mx - mn) + 3" by simp
    then show "c0 ! i = 0" unfolding c0_def by (rule nth_replicate)
  qed
  have c0eq: "replicate ((2 + value_range_member ?s) mod 2 ^ 32) 0 = c0"
    unfolding sm(3) c0_def ..
  have vb: "mn \<le> v \<and> v \<le> mx \<and> nat (v - mn) < ?R" if "Some v \<in> set vs" for v
    using in_boundsD[OF B3 that] by auto
  have ok0: "\<forall>x \<in> set vs. slot_ok ?s 0 c0 x"
  proof
    fix x assume x: "x \<in> set vs"
    show "slot_ok ?s 0 c0 x"
    proof (cases x)
      case None
      then show ?thesis by (simp add: slot_ok_def)
    next
      case (Some v)
      then show ?thesis using vb[of v] x by (simp add: slot_ok_def sm c0)
    qed
  qed
  from CountValues_exact_result[OF ok0] obtain c1 where
    raw: "CountValues_exact ?s vs 0 c0 = Some c1" "length c1 = length c0"
        "\<forall>i < length c0. c1 ! i = c0 ! i + (if 0 \<le> i then occ (min_member ?s) vs (i - 0) else 0)"
    by blast
  have c1: "CountValues_exact ?s vs 0 c0 = Some c1" "length c1 = ?R + 2"
        "\<forall>i < ?R + 2. c1 ! i = occ mn vs i"
    using raw c0 by (simp_all add: sm)
  have "?R < length c1" using c1(2) by simp
  from accumulate_down_result[OF this] obtain c2 where
    c2: "accumulate_down ?R c1 = Some c2" "length c2 = ?R + 2"
        "\<forall>i < ?R + 2. c2 ! i = (if i \<le> ?R then (\<Sum>j = i..?R. c1 ! j) else c1 ! i)"
    using c1(2) by auto
  have cum: "c2 ! i = count_in vs (mn + int i) (mn + int (Suc ?R))" if "i \<le> ?R" for i
  proof -
    have "c2 ! i = (\<Sum>j = i..?R. c1 ! j)" using c2(3) that by simp
    also have "\<dots> = (\<Sum>j = i..?R. occ mn vs j)"
      by (rule sum.cong) (use c1(3) in auto)
    also have "\<dots> = (\<Sum>j = i..<Suc ?R. occ mn vs j)" by (rule sum_shift_interval)
    also have "\<dots> = count_in vs (mn + int i) (mn + int (Suc ?R))"
      by (rule sum_occ_interval) (use that in simp)
    finally show ?thesis .
  qed
  have total: "c2 ! 0 = ?nv"
  proof -
    have "count_in vs (mn + int 0) (mn + int (Suc ?R)) = count_if (\<lambda>_. True) vs"
      by (rule count_in_count_if[OF B3]) (use B1 in auto)
    then show ?thesis using cum[of 0] by (simp add: length_value_rows_ordered)
  qed
  have nv: "?nv \<le> length vs" by (rule length_value_rows_le)
  have start: "min_member ?s \<le> v \<and> 1 + nat (v - min_member ?s) < length c2 \<and>
      c2 ! (1 + nat (v - min_member ?s)) = count_if (\<lambda>w. v < w) vs" if "Some v \<in> set vs" for v
  proof -
    have "count_in vs (mn + int (1 + nat (v - mn))) (mn + int (Suc ?R)) = count_if (\<lambda>w. v < w) vs"
      by (rule count_in_count_if[OF B3]) (use vb[OF that] in auto)
    then show ?thesis using vb[OF that] cum[of "1 + nat (v - mn)"] c2(2) by (simp add: sm)
  qed
  have emit: "EmitIndices_exact ?s ?p vs 0 1 c2 [0..<length vs] =
      Some (expected_layout (null_placement options) ?S [] (null_rows vs))"
    by (rule count_sort_emit[where start = "\<lambda>v. count_if (\<lambda>w. v < w) vs"])
       (use start value_position_desc in \<open>auto\<close>)
  show ?thesis
    unfolding SortInternal_exact_def Let_def
    unfolding c0eq
    unfolding sm(2)
    using desc c1(1) c2(1,2) total nv emit
    by (simp add: partition_result_eq)
qed

lemma ArrayCountSorter_exact_result:
  assumes "mn \<le> mx" "mx - mn < 2 ^ 32 - 3" "in_bounds mn mx vs"
  shows "ArrayCountSorter_exact (SetMinMax_exact mn mx) [0..<length vs] vs 0 options =
     Some (expected_layout (null_placement options)
             (sorted_value_rows id ordered_type vs (order options)) [] (null_rows vs),
           expected_partition (null_placement options) (length (value_rows ordered_type vs)) (length vs))"
  using SortInternal_exact_ascending[OF assms, of options] SortInternal_exact_descending[OF assms, of options]
  by (cases "order options") (simp_all add: ArrayCountSorter_exact_def)

lemma c_sub_exact:
  assumes "c_sub t mx mn = Some (mx - mn)" and "mn \<le> v" and "v \<le> mx"
  shows "c_sub t v mn = Some (v - mn)"
proof (cases "is_signed_integer_type t \<or> sizeof_c_type t < 4")
  case True
  then show ?thesis using assms by (auto simp: c_sub_def split: if_splits)
next
  case False
  let ?m = "(2::int) ^ (8 * sizeof_c_type t)"
  have "(mx - mn) mod ?m = mx - mn" using assms(1) False by (simp add: c_sub_def)
  then have "mx - mn < ?m"
    using pos_mod_bound[of ?m "mx - mn"] by simp
  then have "(v - mn) mod ?m = v - mn" using assms(2,3) by simp
  then show ?thesis using False by (simp add: c_sub_def)
qed

lemma c_sub_small:
  assumes "0 \<le> a - b" and "a - b < 2 ^ 31"
  shows "c_sub t a b = Some (a - b)"
proof -
  have le: "(2::int) ^ 31 \<le> 2 ^ (max 32 (8 * sizeof_c_type t) - 1)"
    by (rule power_increasing) simp_all
  have "(4::nat) \<le> sizeof_c_type t" if "\<not> sizeof_c_type t < 4" using that by simp
  then have "(2::int) ^ 32 \<le> 2 ^ (8 * sizeof_c_type t)" if "\<not> sizeof_c_type t < 4"
    using that by (intro power_increasing) simp_all
  then have "(a - b) mod 2 ^ (8 * sizeof_c_type t) = a - b" if "\<not> sizeof_c_type t < 4"
    using that assms by simp
  then show ?thesis using assms le by (auto simp: c_sub_def)
qed

lemma VisitRawValuesInline_cong_on:
  assumes "\<And>v s. Some v \<in> set vals \<Longrightarrow> f v s = f' v s"
  shows "VisitRawValuesInline vals f g s = VisitRawValuesInline vals f' g s"
  using assms
proof (induction vals arbitrary: s)
  case Nil
  then show ?case by simp
next
  case (Cons x vals)
  show ?case
  proof (cases x)
    case None
    then show ?thesis using Cons by (simp split: option.splits)
  next
    case (Some v)
    have "f v s = f' v s" using Cons.prems Some by simp
    then show ?thesis using Some Cons by (simp split: option.splits)
  qed
qed

lemma count_slot:
  assumes "mn \<le> (v::int)"
  shows "(0 \<le> int base + (v - mn) \<and> int base + (v - mn) < int n) = (mn \<le> v \<and> base + nat (v - mn) < n)"
    and "nat (int base + (v - mn)) = base + nat (v - mn)"
  using assms by auto

lemma CountValues_exact:
  assumes "\<And>v. Some v \<in> set vs \<Longrightarrow> min_member s \<le> v \<and> c_sub t v (min_member s) = Some (v - min_member s)"
  shows "CountValues t s vs base counts = CountValues_exact s vs base counts"
  unfolding CountValues_def CountValues_exact_def
  by (rule VisitRawValuesInline_cong_on) (use assms count_slot in simp)

lemma EmitIndices_exact:
  assumes "\<And>v. Some v \<in> set vs \<Longrightarrow> min_member s \<le> v \<and> c_sub t v (min_member s) = Some (v - min_member s)"
  shows "EmitIndices t s p vs offset base counts indices = EmitIndices_exact s p vs offset base counts indices"
  unfolding EmitIndices_def EmitIndices_exact_def
  by (rule arg_cong[where f="map_option _"], rule VisitRawValuesInline_cong_on)
     (use assms count_slot in \<open>auto split: prod.splits\<close>)

lemma ArrayCountSorter_exact:
  assumes "\<And>v. Some v \<in> set vs \<Longrightarrow> min_member s \<le> v \<and> c_sub t v (min_member s) = Some (v - min_member s)"
  shows "ArrayCountSorter t s indices vs offset options = ArrayCountSorter_exact s indices vs offset options"
proof -
  note cv = CountValues_exact[of vs s t, OF assms]
  note ei = EmitIndices_exact[of vs s t, OF assms]
  have "SortInternal t s indices vs offset options = SortInternal_exact s indices vs offset options"
    by (simp only: SortInternal_def SortInternal_exact_def cv ei)
  then show ?thesis by (simp add: ArrayCountSorter_def ArrayCountSorter_exact_def)
qed

lemma SetMinMax_exact:
  assumes "c_sub t mx mn = Some (mx - mn)"
  shows "SetMinMax t mn mx = Some (SetMinMax_exact mn mx)"
  using assms by (simp add: SetMinMax_def SetMinMax_exact_def)

lemma ArrayCountSorter_result:
  assumes "mn \<le> mx" and "mx - mn < 2 ^ 32 - 3" and "c_sub t mx mn = Some (mx - mn)"
    and "in_bounds mn mx vs"
  shows "SetMinMax t mn mx = Some (SetMinMax_exact mn mx)"
    and "ArrayCountSorter t (SetMinMax_exact mn mx) [0..<length vs] vs 0 options =
     Some (expected_layout (null_placement options)
             (sorted_value_rows id ordered_type vs (order options)) [] (null_rows vs),
           expected_partition (null_placement options) (length (value_rows ordered_type vs)) (length vs))"
proof -
  show "SetMinMax t mn mx = Some (SetMinMax_exact mn mx)" by (rule SetMinMax_exact[OF assms(3)])
  have m: "min_member (SetMinMax_exact mn mx) = mn" by (simp add: SetMinMax_exact_def)
  have "ArrayCountSorter t (SetMinMax_exact mn mx) [0..<length vs] vs 0 options =
      ArrayCountSorter_exact (SetMinMax_exact mn mx) [0..<length vs] vs 0 options"
    by (rule ArrayCountSorter_exact)
       (use in_boundsD[OF assms(4)] c_sub_exact[OF assms(3)] m in auto)
  then show "ArrayCountSorter t (SetMinMax_exact mn mx) [0..<length vs] vs 0 options =
     Some (expected_layout (null_placement options)
             (sorted_value_rows id ordered_type vs (order options)) [] (null_rows vs),
           expected_partition (null_placement options) (length (value_rows ordered_type vs)) (length vs))"
    using ArrayCountSorter_exact_result[OF assms(1,2,4), of options] by simp
qed

lemma ArrayCountSorter_of_result:
  assumes "mn \<le> mx" and "mx - mn < 2 ^ 32 - 3" and "c_sub t mx mn = Some (mx - mn)"
    and "in_bounds mn mx vs"
  shows "ArrayCountSorter_of t mn mx [0..<length vs] vs 0 options =
     Some (expected_layout (null_placement options)
             (sorted_value_rows id ordered_type vs (order options)) [] (null_rows vs),
           expected_partition (null_placement options) (length (value_rows ordered_type vs)) (length vs))"
  using ArrayCountSorter_result(1)[OF assms] ArrayCountSorter_result(2)[OF assms, of options]
  by (simp add: ArrayCountSorter_of_def)

lemma ordered_type_key: "\<not> is_null_like ordered_type a \<Longrightarrow> \<not> is_null_like ordered_type b \<Longrightarrow>
    value_less ordered_type a b = (id a < id b)"
  by (simp add: ordered_type_def)

lemma count_sorter_eq_compare_sorter:
  assumes "mn \<le> mx" "mx - mn < 2 ^ 32 - 3" "c_sub t mx mn = Some (mx - mn)" "in_bounds mn mx vs"
  shows "ArrayCountSorter_of t mn mx [0..<length vs] vs 0 options =
         ArrayCompareSorter ordered_type [0..<length vs] vs 0 options"
  using ArrayCountSorter_of_result[OF assms, of options]
    ArrayCompareSorter_result[of ordered_type id vs options, OF ordered_type_key]
  by simp

lemma set_non_null_values: "set (non_null_values vs) = {v. Some v \<in> set vs}"
  by (induction vs) (auto simp: non_null_values_def split: option.splits)

lemma non_null_values_empty: "(non_null_values vs = []) = (null_count vs = length vs)"
proof -
  have "length (non_null_values vs) + null_count vs = length vs"
    by (induction vs) (auto simp: non_null_values_def null_count_def split: option.splits)
  then show ?thesis by (metis add_0 length_0_conv add_right_cancel list.size(3) add.commute)
qed

lemma GetMinMax_Min_Max:
  assumes "null_count vs < length vs"
  shows "GetMinMax vs = (Min {v. Some v \<in> set vs}, Max {v. Some v \<in> set vs})"
proof -
  have ne: "non_null_values vs \<noteq> []"
    using assms non_null_values_empty[of vs] by simp
  then obtain v ws where vw: "non_null_values vs = v # ws"
    by (cases "non_null_values vs") auto
  have "GetMinMax vs = (fold min ws v, fold max ws v)"
    using vw by (simp add: GetMinMax_def non_null_values_def)
  also have "fold min ws v = Min (set (v # ws))" by (rule Min.set_eq_fold[symmetric])
  also have "fold max ws v = Max (set (v # ws))" by (rule Max.set_eq_fold[symmetric])
  finally show ?thesis
    using set_non_null_values[of vs] vw by simp
qed

lemma sub_uint64_exact:
  assumes "0 \<le> mx - mn" "mx - mn < 2 ^ 64"
  shows "sub_uint64 (cast_uint64 mx) (cast_uint64 mn) = mx - mn"
proof -
  have "sub_uint64 (cast_uint64 mx) (cast_uint64 mn) = (mx - mn) mod 2 ^ 64"
    by (simp add: sub_uint64_def cast_uint64_def mod_diff_eq)
  then show ?thesis using assms by simp
qed

lemma min_max_in_bounds:
  assumes "in_bounds lo hi vs" "null_count vs < length vs"
  shows "lo \<le> Min {v. Some v \<in> set vs}" "Max {v. Some v \<in> set vs} \<le> hi"
    "Min {v. Some v \<in> set vs} \<le> Max {v. Some v \<in> set vs}"
    "in_bounds (Min {v. Some v \<in> set vs}) (Max {v. Some v \<in> set vs}) vs"
proof -
  let ?A = "{v. Some v \<in> set vs}"
  have fin: "finite ?A" using set_non_null_values[of vs] by (metis List.finite_set)
  have "set (non_null_values vs) \<noteq> {}"
    using assms(2) non_null_values_empty[of vs] by simp
  then have ne: "?A \<noteq> {}"
    unfolding set_non_null_values .
  have b: "\<forall>v \<in> ?A. lo \<le> v \<and> v \<le> hi"
    using assms(1) by (auto dest: in_boundsD)
  show "lo \<le> Min ?A" using fin ne b by simp
  show "Max ?A \<le> hi" using fin ne b by simp
  show "Min ?A \<le> Max ?A" using fin ne by (simp add: Min_le_iff)  
  show "in_bounds (Min ?A) (Max ?A) vs"
    using fin by (auto simp: in_bounds_def list_all_iff split: option.splits)
qed

lemma choose_sorter_policy:
  assumes "in_bounds lo hi vs" "hi - lo < 2 ^ 64"
  shows "choose_sorter vs =
     (if 1024 \<le> length vs \<and> null_count vs < length vs \<and>
         Max {v. Some v \<in> set vs} - Min {v. Some v \<in> set vs} \<le> 4096
      then UseCountSorter (Min {v. Some v \<in> set vs}) (Max {v. Some v \<in> set vs})
      else UseCompareSorter)"
proof (cases "1024 \<le> length vs \<and> null_count vs < length vs")
  case True
  note mm = min_max_in_bounds[OF assms(1)] 
  have r: "0 \<le> Max {v. Some v \<in> set vs} - Min {v. Some v \<in> set vs}"
     "Max {v. Some v \<in> set vs} - Min {v. Some v \<in> set vs} < 2 ^ 64"
    using mm(1,2,3) True assms(2) by auto
  show ?thesis
    using True
    by (simp add: choose_sorter_def countsort_min_len_def countsort_max_range_def
        GetMinMax_Min_Max sub_uint64_exact[OF r])
next
  case False
  then show ?thesis
    by (auto simp: choose_sorter_def countsort_min_len_def)
qed

lemma value_rowD:
  "i \<in> set (value_rows T vs) \<Longrightarrow> i < length vs \<and> (\<exists>v. vs ! i = Some v \<and> \<not> is_null_like T v)"
  by (auto simp: value_rows_def is_value_row_def split: option.splits)

lemma null_like_rowD:
  "i \<in> set (null_like_rows T vs) \<Longrightarrow> i < length vs \<and> (\<exists>v. vs ! i = Some v \<and> is_null_like T v)"
  by (auto simp: null_like_rows_def is_null_like_row_def split: option.splits)

lemma null_rowD: "i \<in> set (null_rows vs) \<Longrightarrow> i < length vs \<and> vs ! i = None"
  by (auto simp: null_rows_def IsNull_def)

lemma set_sorted_value_rows [simp]:
  "set (sorted_value_rows key T vs ord) = set (value_rows T vs)"
  by (simp add: sorted_value_rows_def)

lemma mset_rows:
  "mset (value_rows T vs) + mset (null_like_rows T vs) + mset (null_rows vs) = mset [0..<length vs]"
proof -
  have "mset (filter (is_value_row T vs) xs) + mset (filter (is_null_like_row T vs) xs)
      + mset (filter (IsNull vs) xs) = mset xs" for xs
    by (induction xs) (auto simp: is_value_row_def is_null_like_row_def IsNull_def split: option.splits)
  then show ?thesis unfolding value_rows_def null_like_rows_def null_rows_def .
qed

lemma mset_expected_layout:
  "mset (expected_layout pl (sorted_value_rows key T vs ord) (null_like_rows T vs) (null_rows vs))
     = mset [0..<length vs]"
  using mset_rows[of T vs] by (simp add: expected_layout_def add.commute add.left_commute)

lemma filter_sort_key_stable:
  fixes f :: "'a \<Rightarrow> 'k::linorder"
  assumes "\<And>y. y \<in> set xs \<Longrightarrow> P y \<Longrightarrow> f y = k"
  shows "filter P (sort_key f xs) = filter P xs"
proof -
  have "filter P (sort_key f xs) = filter P (filter (\<lambda>y. f y = k) (sort_key f xs))"
    unfolding filter_filter by (rule filter_cong) (use assms in auto)
  also have "\<dots> = filter P (filter (\<lambda>y. f y = k) xs)"
    by (simp only: sort_key_stable)
  also have "\<dots> = filter P xs"
    unfolding filter_filter by (rule filter_cong) (use assms in auto)
  finally show ?thesis .
qed

lemma filter_sorted_value_rows:
  "filter (\<lambda>i. vs ! i = c) (sorted_value_rows key T vs ord) = filter (\<lambda>i. vs ! i = c) (value_rows T vs)"
proof (cases ord)
  case Ascending
  show ?thesis
    unfolding sorted_value_rows_def using Ascending
    by (simp, intro filter_sort_key_stable[where k = "key (the c)"])
       (auto simp: GetView_def)
next
  case Descending
  show ?thesis
    unfolding sorted_value_rows_def using Descending
    by (simp, intro filter_sort_key_stable[where k = "Down (key (the c))"])
       (auto simp: GetView_def)
qed

lemma expected_layout_stable:
  "filter (\<lambda>i. vs ! i = c)
     (expected_layout pl (sorted_value_rows key T vs ord) (null_like_rows T vs) (null_rows vs))
     = filter (\<lambda>i. vs ! i = c) [0..<length vs]"
proof -
  let ?P = "\<lambda>i. vs ! i = c"
  have A: "filter ?P (value_rows T vs) = (if (case c of None \<Rightarrow> False | Some v \<Rightarrow> \<not> is_null_like T v) then filter ?P [0..<length vs] else [])"
    unfolding value_rows_def filter_filter
    by (auto simp: is_value_row_def filter_empty_conv split: option.splits intro!: filter_cong)
  have B: "filter ?P (null_like_rows T vs) = (if (case c of None \<Rightarrow> False | Some v \<Rightarrow> is_null_like T v) then filter ?P [0..<length vs] else [])"
    unfolding null_like_rows_def filter_filter
    by (auto simp: is_null_like_row_def filter_empty_conv split: option.splits intro!: filter_cong)
  have C: "filter ?P (null_rows vs) = (if c = None then filter ?P [0..<length vs] else [])"
    unfolding null_rows_def filter_filter
    by (auto simp: IsNull_def filter_empty_conv intro!: filter_cong)
  have "filter ?P (expected_layout pl (sorted_value_rows key T vs ord) (null_like_rows T vs) (null_rows vs))
      = (if pl = AtStart
         then filter ?P (null_rows vs) @ filter ?P (null_like_rows T vs) @ filter ?P (value_rows T vs)
         else filter ?P (value_rows T vs) @ filter ?P (null_like_rows T vs) @ filter ?P (null_rows vs))"
    by (simp add: expected_layout_def filter_sorted_value_rows)
  also have "\<dots> = filter ?P [0..<length vs]"
    unfolding A B C by (cases c) auto
  finally show ?thesis .
qed

lemma sorted_value_rows_in_order:
  fixes key :: "'v \<Rightarrow> 'k::linorder"
  assumes key: "\<And>a b. \<not> is_null_like T a \<Longrightarrow> \<not> is_null_like T b \<Longrightarrow> value_less T a b = (key a < key b)"
  shows "sorted_wrt (in_output_order T ord pl) (map ((!) vs) (sorted_value_rows key T vs ord))"
proof -
  let ?S = "sorted_value_rows key T vs ord"
  have rel: "in_output_order T ord pl (vs ! i) (vs ! j)"
    if ij: "i \<in> set ?S" "j \<in> set ?S"
       "if ord = Ascending then key (GetView vs i) \<le> key (GetView vs j)
        else key (GetView vs j) \<le> key (GetView vs i)" for i j
  proof -
    obtain a where a: "vs ! i = Some a" "\<not> is_null_like T a"
      using value_rowD[of i T vs] ij(1) by auto
    obtain b where b: "vs ! j = Some b" "\<not> is_null_like T b"
      using value_rowD[of j T vs] ij(2) by auto
    show ?thesis
      using ij(3) a b key[OF a(2) b(2)] key[OF b(2) a(2)]
      by (auto simp: in_output_order_def row_group_def GetView_def not_less)
  qed
  have "sorted_wrt (\<lambda>i j. if ord = Ascending then key (GetView vs i) \<le> key (GetView vs j)
        else key (GetView vs j) \<le> key (GetView vs i)) ?S"
  proof (cases ord)
    case Ascending
    have "sorted (map (\<lambda>i. key (GetView vs i)) (sort_key (\<lambda>i. key (GetView vs i)) (value_rows T vs)))"
      by (rule sorted_sort_key)
    then show ?thesis
      using Ascending by (simp add: sorted_value_rows_def sorted_map)
  next
    case Descending
    have "sorted (map (\<lambda>i. Down (key (GetView vs i))) (sort_key (\<lambda>i. Down (key (GetView vs i))) (value_rows T vs)))"
      by (rule sorted_sort_key)
    then show ?thesis
      using Descending by (simp add: sorted_value_rows_def sorted_map)
  qed
  then have "sorted_wrt (\<lambda>i j. in_output_order T ord pl (vs ! i) (vs ! j)) ?S"
    by (rule sorted_wrt_mono_rel[rotated]) (use rel in blast)
  then show ?thesis by (simp add: sorted_wrt_map)
qed

lemma group_in_order:
  assumes "\<And>i. i \<in> set xs \<Longrightarrow> row_group pl T (vs ! i) = g"
    and "\<And>i. i \<in> set xs \<Longrightarrow> vs ! i = None \<or> (\<exists>v. vs ! i = Some v \<and> is_null_like T v)"
  shows "sorted_wrt (in_output_order T ord pl) (map ((!) vs) xs)"
proof -
  have "sorted_wrt (\<lambda>i j. in_output_order T ord pl (vs ! i) (vs ! j)) xs"
  proof (rule sorted_wrt_mono_rel[rotated])
    show "sorted_wrt (\<lambda>_ _. True) xs" by simp
    fix i j assume "i \<in> set xs" "j \<in> set xs"
    then show "in_output_order T ord pl (vs ! i) (vs ! j)"
      using assms(1)[of i] assms(1)[of j] assms(2)[of i]
      by (auto simp: in_output_order_def split: option.splits)
  qed
  then show ?thesis by (simp add: sorted_wrt_map)
qed

lemma expected_layout_in_order:
  fixes key :: "'v \<Rightarrow> 'k::linorder"
  assumes key: "\<And>a b. \<not> is_null_like T a \<Longrightarrow> \<not> is_null_like T b \<Longrightarrow> value_less T a b = (key a < key b)"
  shows "sorted_wrt (in_output_order T ord pl)
     (map ((!) vs) (expected_layout pl (sorted_value_rows key T vs ord) (null_like_rows T vs) (null_rows vs)))"
proof -
  let ?S = "sorted_value_rows key T vs ord"
  have gv: "row_group pl T (vs ! i) = (if pl = AtStart then 2 else 0)" if "i \<in> set ?S" for i
    using value_rowD[of i T vs] that by (auto simp: row_group_def)
  have gl: "row_group pl T (vs ! i) = 1" if "i \<in> set (null_like_rows T vs)" for i
    using null_like_rowD[OF that] by (auto simp: row_group_def)
  have gn: "row_group pl T (vs ! i) = (if pl = AtStart then 0 else 2)" if "i \<in> set (null_rows vs)" for i
    using null_rowD[OF that] by (auto simp: row_group_def)
  have sv: "sorted_wrt (in_output_order T ord pl) (map ((!) vs) ?S)"
    by (rule sorted_value_rows_in_order[OF key])
  have sl: "sorted_wrt (in_output_order T ord pl) (map ((!) vs) (null_like_rows T vs))"
    by (rule group_in_order[where g = 1]) (use gl null_like_rowD in auto)
  have sn: "sorted_wrt (in_output_order T ord pl) (map ((!) vs) (null_rows vs))"
    by (rule group_in_order[where g = "if pl = AtStart then 0 else 2"]) (use gn null_rowD in auto)
  show ?thesis
  proof (cases pl)
    case AtStart
    then show ?thesis
      using sv sl sn gv gl gn
      by (auto simp: expected_layout_def sorted_wrt_append in_output_order_def)
  next
    case AtEnd
    then show ?thesis
      using sv sl sn gv gl gn
      by (auto simp: expected_layout_def sorted_wrt_append in_output_order_def)
  qed
qed

lemma bool_visitors:
  "(\<lambda>v (index, c, buf).
      if non_nulls_begin p + c ! (if v then 1 else 0) < length buf
      then Some (index + 1,
                 c[(if v then 1 else 0) := c ! (if v then 1 else 0) + 1],
                 buf[non_nulls_begin p + c ! (if v then 1 else 0) := index])
      else None) = bool_value p"
  "(\<lambda>(index, c, buf).
      if nulls_begin p + c ! 2 < length buf
      then Some (index + 1, c[2 := c ! 2 + 1], buf[nulls_begin p + c ! 2 := index])
      else None) = bool_null p"
  by (intro ext; simp add: bool_value_def bool_null_def)+

lemma bool_visit_sim:
  assumes "min_member s = 0"
  shows "map_option (\<lambda>st. snd (snd st))
           (VisitRawValuesInline vs (bool_value p) (bool_null p) (idx, [a, b, cn], buf))
       = map_option (\<lambda>st. snd (snd (snd st)))
           (VisitRawValuesInline (map (map_option b2i) vs) (emit_value s p 0) (emit_null p)
              (idx, cn, [a, b], buf))"
proof (induction vs arbitrary: idx a b cn buf)
  case Nil
  then show ?case by simp
next
  case (Cons x vs)
  show ?case
  proof (cases x)
    case None
    then show ?thesis
      using Cons.IH[of "idx + 1" a b "cn + 1"]
      by (simp add: bool_null_def emit_null_def)
  next
    case (Some v)
    show ?thesis
    proof (cases v)
      case True
      then show ?thesis
        using Some Cons.IH[of "idx + 1" a "b + 1" cn] assms
        by (simp add: bool_value_def emit_value_def b2i_def)
    next
      case False
      then show ?thesis
        using Some Cons.IH[of "idx + 1" "a + 1" b cn] assms
        by (simp add: bool_value_def emit_value_def b2i_def)
    qed
  qed
qed

lemma bool_counts:
  "length (vs :: bool Array) = null_count vs + true_count vs + length (filter (\<lambda>x. x = Some False) vs)"
  by (induction vs) (auto simp: null_count_def true_count_def)

lemma null_count_rows: "null_count vs = length (null_rows vs)"
  using length_filter_index[of "length vs" vs "\<lambda>x. x = None"]
  by (simp add: null_count_def null_rows_def IsNull_def[abs_def])

lemma mapped_rows:
  "null_rows (map (map_option f) vs) = null_rows vs"
  "value_rows ordered_type (map (map_option f) vs) = value_rows ordered_type vs"
  by (auto simp: null_rows_def value_rows_def IsNull_def intro!: filter_cong)

lemma insort_key_cong_on:
  "f x = g x \<Longrightarrow> \<forall>y \<in> set ys. f y = g y \<Longrightarrow> insort_key f x ys = insort_key g x ys"
  by (induction ys) auto

lemma sort_key_cong_on:
  "\<forall>x \<in> set xs. f x = g x \<Longrightarrow> sort_key f xs = sort_key g xs"
proof (induction xs)
  case Nil
  then show ?case by simp
next
  case (Cons x xs)
  then have "sort_key f xs = sort_key g xs" by simp
  moreover have "insort_key f x (sort_key g xs) = insort_key g x (sort_key g xs)"
    by (rule insort_key_cong_on) (use Cons.prems in auto)
  ultimately show ?case by simp
qed

lemma mapped_sorted_value_rows:
  "sorted_value_rows id ordered_type (map (map_option f) vs) ord = sorted_value_rows f ordered_type vs ord"
proof -
  have "GetView (map (map_option f) vs) i = f (GetView vs i)" if "i \<in> set (value_rows ordered_type vs)" for i
    using value_rowD[OF that] by (auto simp: GetView_def)
  then show ?thesis
    by (auto simp: sorted_value_rows_def mapped_rows intro!: sort_key_cong_on)
qed

lemma count_if_mapped:
  "count_if P (map (map_option f) vs) =
     length (filter (\<lambda>x. case x of None \<Rightarrow> False | Some b \<Rightarrow> P (f b)) vs)"
  by (induction vs) (auto simp: count_if_def split: option.splits)

lemma ArrayCountSorter_Boolean_result:
  "ArrayCountSorter_Boolean [0..<length vs] vs 0 options =
     Some (expected_layout (null_placement options)
             (sorted_value_rows b2i ordered_type vs (order options)) [] (null_rows vs),
           expected_partition (null_placement options) (length (value_rows ordered_type vs)) (length vs))"
proof -
  let ?vs' = "map (map_option b2i) vs"
  let ?n = "length vs"
  let ?nulls = "null_count vs"
  let ?ones = "true_count vs"
  let ?zeros = "?n - ?ones - ?nulls"
  let ?nv = "length (value_rows ordered_type vs)"
  let ?p = "expected_partition (null_placement options) ?nv ?n"
  let ?S = "sorted_value_rows id ordered_type ?vs' (order options)"
  define s0 where "s0 = \<lparr>min_member = 0, value_range_member = 2\<rparr>"
  have s0: "min_member s0 = 0" by (simp add: s0_def)
  have nvn: "?nv + ?nulls = ?n"
    using rows_partition_length[of ordered_type vs] by (simp add: null_count_rows)
  have p: "(if null_placement options = AtStart then NullsAtStart 0 ?n (0 + ?nulls)
            else NullsAtEnd 0 ?n (?n - ?nulls)) = ?p"
    using nvn by (auto simp: NullsAtStart_def NullsAtEnd_def expected_partition_def)
  have zeros: "length (filter (\<lambda>x. x = Some False) vs) = ?zeros"
    using bool_counts[of vs] by simp
  have cnt: "count_if (\<lambda>w. w < 1) ?vs' = ?zeros" "count_if (\<lambda>w. w < 0) ?vs' = 0"
    "count_if (\<lambda>w. 0 < w) ?vs' = ?ones" "count_if (\<lambda>w. 1 < w) ?vs' = 0"
  proof -
    have a: "(\<lambda>x. case x of None \<Rightarrow> False | Some b \<Rightarrow> b2i b < 1) = (\<lambda>x. x = Some False)"
      by (intro ext) (auto simp: b2i_def split: option.splits)
    have b: "(\<lambda>x. case x of None \<Rightarrow> False | Some b \<Rightarrow> 0 < b2i b) = (\<lambda>x. x = Some True)"
      by (intro ext) (auto simp: b2i_def split: option.splits)
    show "count_if (\<lambda>w. w < 1) ?vs' = ?zeros" by (simp add: count_if_mapped a zeros)
    show "count_if (\<lambda>w. 0 < w) ?vs' = ?ones" by (simp add: count_if_mapped b true_count_def)
    show "count_if (\<lambda>w. w < 0) ?vs' = 0"
      by (auto simp: count_if_mapped b2i_def filter_empty_conv split: option.splits)
    show "count_if (\<lambda>w. 1 < w) ?vs' = 0"
      by (auto simp: count_if_mapped b2i_def filter_empty_conv split: option.splits)
  qed
  have vals: "v = 0 \<or> v = 1" if "Some v \<in> set ?vs'" for v
  proof -
    from that obtain x where "Some v = map_option b2i x" by auto
    then show ?thesis by (cases x) (auto simp: b2i_def)
  qed
  have emit: "EmitIndices_exact s0 ?p ?vs' 0 0
        (if order options = Ascending then [0, ?zeros] else [?ones, 0]) [0..<length ?vs']
      = Some (expected_layout (null_placement options) ?S [] (null_rows ?vs'))"
  proof (cases "order options")
    case Ascending
    have "EmitIndices_exact s0 ?p ?vs' 0 0 [0, ?zeros] [0..<length ?vs']
      = Some (expected_layout (null_placement options)
                (sorted_value_rows id ordered_type ?vs' Ascending) [] (null_rows ?vs'))"
    proof (rule count_sort_emit[where start = "\<lambda>v. count_if (\<lambda>w. w < v) ?vs'"])
      fix v assume "Some v \<in> set ?vs'"
      then show "min_member s0 \<le> v \<and> 0 + nat (v - min_member s0) < length [0, ?zeros] \<and>
          [0, ?zeros] ! (0 + nat (v - min_member s0)) = count_if (\<lambda>w. w < v) ?vs'"
        using vals[of v] cnt by (auto simp: s0)
    next
      fix j v assume "j < length ?vs'" "?vs' ! j = Some v"
      then show "count_if (\<lambda>w. w < v) ?vs' + rank ?vs' j
            < length (sorted_value_rows id ordered_type ?vs' Ascending) \<and>
          sorted_value_rows id ordered_type ?vs' Ascending ! (count_if (\<lambda>w. w < v) ?vs' + rank ?vs' j) = j"
        using value_position_asc[of j ?vs' v] by blast
    qed (simp_all add: mapped_rows)
    then show ?thesis using Ascending by simp
  next
    case Descending
    have "EmitIndices_exact s0 ?p ?vs' 0 0 [?ones, 0] [0..<length ?vs']
      = Some (expected_layout (null_placement options)
                (sorted_value_rows id ordered_type ?vs' Descending) [] (null_rows ?vs'))"
    proof (rule count_sort_emit[where start = "\<lambda>v. count_if (\<lambda>w. v < w) ?vs'"])
      fix v assume "Some v \<in> set ?vs'"
      then show "min_member s0 \<le> v \<and> 0 + nat (v - min_member s0) < length [?ones, 0] \<and>
          [?ones, 0] ! (0 + nat (v - min_member s0)) = count_if (\<lambda>w. v < w) ?vs'"
        using vals[of v] cnt by (auto simp: s0)
    next
      fix j v assume "j < length ?vs'" "?vs' ! j = Some v"
      then show "count_if (\<lambda>w. v < w) ?vs' + rank ?vs' j
            < length (sorted_value_rows id ordered_type ?vs' Descending) \<and>
          sorted_value_rows id ordered_type ?vs' Descending ! (count_if (\<lambda>w. v < w) ?vs' + rank ?vs' j) = j"
        using value_position_desc[of j ?vs' v] by blast
    qed (simp_all add: mapped_rows)
    then show ?thesis using Descending by simp
  qed
  have sim: "map_option (\<lambda>st. snd (snd st))
           (VisitRawValuesInline vs (bool_value ?p) (bool_null ?p) (0, [a, b, 0], [0..<?n]))
       = EmitIndices_exact s0 ?p ?vs' 0 0 [a, b] [0..<length ?vs']" for a b
    using bool_visit_sim[OF s0, of vs ?p 0 a b 0 "[0..<?n]"] by (simp add: EmitIndices_exact_visit)
  have c3: "(\<lambda>(index, c, buf). (buf, ?p)) = (\<lambda>st. (snd (snd st), ?p))"
    by (intro ext) (simp add: split_def)
  have m: "map_option (\<lambda>st. (snd (snd st), ?p)) r = map_option (\<lambda>buf. (buf, ?p)) (map_option (\<lambda>st. snd (snd st)) r)"
    for r :: "(nat \<times> nat list \<times> nat list) option"
    by (cases r) simp_all
  have le: "?nulls \<le> ?n" using nvn by simp
  show ?thesis
    unfolding ArrayCountSorter_Boolean_def Let_def
    unfolding length_upt diff_zero p bool_visitors c3 m
    using le emit sim[of 0 ?zeros] sim[of ?ones 0]
    by (cases "order options") (simp_all add: mapped_rows mapped_sorted_value_rows)
qed

lemma ArrayCountOrCompareSorter_result:
  assumes "in_bounds lo hi vs" "hi - lo < 2 ^ 64"
  shows "ArrayCountOrCompareSorter t [0..<length vs] vs 0 options =
     Some (expected_layout (null_placement options)
             (sorted_value_rows id ordered_type vs (order options)) [] (null_rows vs),
           expected_partition (null_placement options) (length (value_rows ordered_type vs)) (length vs))"
proof (cases "1024 \<le> length vs \<and> null_count vs < length vs \<and>
         Max {v. Some v \<in> set vs} - Min {v. Some v \<in> set vs} \<le> 4096")
  case True
  have ch: "choose_sorter vs = UseCountSorter (Min {v. Some v \<in> set vs}) (Max {v. Some v \<in> set vs})"
    using choose_sorter_policy[OF assms] True by simp
  have nn: "null_count vs < length vs" using True by simp
  note mm = min_max_in_bounds[OF assms(1) nn]
  have small: "Max {v. Some v \<in> set vs} - Min {v. Some v \<in> set vs} < 2 ^ 32 - 3"
    using True by simp
  have sub: "c_sub t (Max {v. Some v \<in> set vs}) (Min {v. Some v \<in> set vs}) =
      Some (Max {v. Some v \<in> set vs} - Min {v. Some v \<in> set vs})"
    by (rule c_sub_small) (use True mm(3) in simp_all)
  show ?thesis
    using ArrayCountSorter_of_result[OF mm(3) small sub mm(4), of options]
    by (simp add: ArrayCountOrCompareSorter_def ch)
next
  case False
  have ch: "choose_sorter vs = UseCompareSorter"
    using choose_sorter_policy[OF assms] False by auto
  show ?thesis
    using ArrayCompareSorter_result[of ordered_type id vs options, OF ordered_type_key]
    by (simp add: ArrayCountOrCompareSorter_def ch)
qed

lemma floating_type_key:
  "\<not> is_null_like floating_type a \<Longrightarrow> \<not> is_null_like floating_type b \<Longrightarrow>
     value_less floating_type a b = (fin_value a < fin_value b)"
  by (cases a; cases b) (simp_all add: floating_type_def)

lemma b2i_key:
  "\<not> is_null_like ordered_type a \<Longrightarrow> \<not> is_null_like ordered_type b \<Longrightarrow>
     value_less ordered_type a b = (b2i a < b2i b)"
  by (cases a; cases b) (simp_all add: ordered_type_def b2i_def)

lemma expected_layout_good:
  fixes key :: "'v \<Rightarrow> 'k::linorder"
  assumes key: "\<And>a b. \<not> is_null_like T a \<Longrightarrow> \<not> is_null_like T b \<Longrightarrow> value_less T a b = (key a < key b)"
  shows "stable_output vs (expected_layout (null_placement options)
           (sorted_value_rows key T vs (order options)) (null_like_rows T vs) (null_rows vs))"
    and "sorted_output T options vs (expected_layout (null_placement options)
           (sorted_value_rows key T vs (order options)) (null_like_rows T vs) (null_rows vs))"
  using expected_layout_stable[of vs _ "null_placement options" key T "order options"]
    expected_layout_in_order[of T key "order options" "null_placement options" vs, OF key]
    mset_expected_layout[of "null_placement options" key T vs "order options"]
  by (simp_all add: stable_output_def sorted_output_def)

lemma in_output_order_map:
  assumes "\<And>a b. value_less T' (g a) (g b) = value_less T a b"
    and "\<And>a. is_null_like T' (g a) = is_null_like T a"
  shows "in_output_order T' ord pl (map_option g x) (map_option g y) = in_output_order T ord pl x y"
  using assms by (cases x; cases y) (simp_all add: in_output_order_def row_group_def)

lemma sorted_output_map:
  assumes "\<And>a b. value_less T' (g a) (g b) = value_less T a b"
    and "\<And>a. is_null_like T' (g a) = is_null_like T a"
    and "sorted_output T options vs out"
  shows "sorted_output T' options (map (map_option g) vs) out"
proof -
  have ms: "mset out = mset [0..<length vs]" using assms(3) by (simp add: sorted_output_def)
  have "set out = set [0..<length vs]" by (rule mset_eq_setD[OF ms])
  then have inr: "\<forall>i \<in> set out. i < length vs" by simp
  have e: "map ((!) (map (map_option g) vs)) out = map (map_option g) (map ((!) vs) out)"
    using inr by simp
  have "sorted_wrt (in_output_order T' (order options) (null_placement options))
      (map (map_option g) (map ((!) vs) out))"
  proof -
    have "sorted_wrt (in_output_order T (order options) (null_placement options)) (map ((!) vs) out)"
      using assms(3) by (simp add: sorted_output_def)
    then show ?thesis
      unfolding sorted_wrt_map[of _ "map_option g"] in_output_order_map[OF assms(1,2)] .
  qed
  then show ?thesis unfolding sorted_output_def e using ms by simp
qed

lemma stable_output_map:
  assumes "inj g" "stable_output vs out" "\<forall>i \<in> set out. i < length vs"
  shows "stable_output (map (map_option g) vs) out"
  unfolding stable_output_def
proof
  fix c
  let ?vs' = "map (map_option g) vs"
  show "filter (\<lambda>i. ?vs' ! i = c) out = filter (\<lambda>i. ?vs' ! i = c) [0..<length ?vs']"
  proof (cases "\<exists>c0. c = map_option g c0")
    case True
    then obtain c0 where c0: "c = map_option g c0" by blast
    have eq: "(?vs' ! i = c) = (vs ! i = c0)" if "i < length vs" for i
      using that assms(1) c0 by (auto simp: option.inj_map inj_eq)
    have "filter (\<lambda>i. ?vs' ! i = c) out = filter (\<lambda>i. vs ! i = c0) out"
      by (rule filter_cong) (use eq assms(3) in auto)
    moreover have "filter (\<lambda>i. ?vs' ! i = c) [0..<length ?vs'] = filter (\<lambda>i. vs ! i = c0) [0..<length vs]"
      by (simp, rule filter_cong) (use eq in auto)
    ultimately show ?thesis using assms(2) by (simp add: stable_output_def)
  next
    case False
    then have ne: "?vs' ! i \<noteq> c" if "i < length vs" for i
      using that by (metis nth_map)
    have "filter (\<lambda>i. ?vs' ! i = c) out = []"
      using ne assms(3) by (auto simp: filter_empty_conv)
    moreover have "filter (\<lambda>i. ?vs' ! i = c) [0..<length ?vs'] = []"
      using ne by (auto simp: filter_empty_conv)
    ultimately show ?thesis by simp
  qed
qed

lemma GetArraySorter_eq:
  "GetArraySorter t =
     (case ArraySorter t of
        None \<Rightarrow> Inl (TypeError (''Sorting not supported for type '' @ ToString t))
      | Some s \<Rightarrow> Inr (Some s))"
  by (simp add: GetArraySorter_def MakeSorter_def Visit_def split: option.splits)

lemma integer_types:
  "is_integer_type t = (t = UINT8 \<or> t = INT8 \<or> t = UINT16 \<or> t = INT16 \<or> t = UINT32 \<or> t = INT32
     \<or> t = UINT64 \<or> t = INT64)"
  by (auto simp: is_integer_type_def)

lemma one_byte_sorters:
  "SetMinMax UINT8 0 255 = Some (SetMinMax_exact 0 255)"
  "SetMinMax INT8 (- 128) 127 = Some (SetMinMax_exact (- 128) 127)"
  by (rule SetMinMax_exact, rule c_sub_small, simp, simp)+

lemma sorter_for_integer:
  assumes "well_typed ty (IntegerData vs)"
  shows "\<exists>s. GetArraySorter (GetPhysicalType ty) = Inr s \<and>
     call_sorter s [0..<length vs] (IntegerData vs) 0 options =
       Some (expected_layout (null_placement options)
               (sorted_value_rows id ordered_type vs (order options))
               (null_like_rows ordered_type vs) (null_rows vs),
             expected_partition (null_placement options)
               (length (value_rows ordered_type vs)) (length vs))"
proof (cases "is_integer_type (GetPhysicalType ty)")
  case True
  let ?pt = "GetPhysicalType ty"
  have b: "in_bounds (c_type_min ?pt) (c_type_max ?pt) vs"
    using assms True by simp
  consider "?pt = UINT8" | "?pt = INT8"
    | "?pt = UINT16 \<or> ?pt = INT16 \<or> ?pt = UINT32 \<or> ?pt = INT32 \<or> ?pt = UINT64 \<or> ?pt = INT64"
    using True by (auto simp: integer_types)
  then show ?thesis
  proof cases
    case 1
    have "in_bounds 0 255 vs" using b 1 by (simp add: c_type_min_def c_type_max_def)
    from ArrayCountSorter_result(2)[OF _ _ c_sub_small this, where t = UINT8 and options = options]
    show ?thesis
      by (simp add: 1 GetArraySorter_eq ArraySorter_def one_byte_sorters)
  next
    case 2
    have "in_bounds (- 128) 127 vs" using b 2 by (simp add: c_type_min_def c_type_max_def)
    from ArrayCountSorter_result(2)[OF _ _ c_sub_small this, where t = INT8 and options = options]
    show ?thesis
      by (simp add: 2 GetArraySorter_eq ArraySorter_def one_byte_sorters)
  next
    case 3
    have w: "c_type_max ?pt - c_type_min ?pt < 2 ^ 64"
      using 3 by (auto simp: c_type_min_def c_type_max_def)
    have s: "ArraySorter ?pt = Some (CountOrCompareSorter ?pt)"
      using 3 by (auto simp: ArraySorter_def is_integer_type_def sizeof_c_type_def)
    from ArrayCountOrCompareSorter_result[OF b w, of ?pt options]
    show ?thesis
      by (simp add: GetArraySorter_eq s)
  qed
next
  case False
  then have d: "ty = DECIMAL128 \<or> ty = DECIMAL256" using assms by simp
  then have s: "ArraySorter (GetPhysicalType ty) = Some CompareSorter"
    by (auto simp: GetPhysicalType_def ArraySorter_def is_integer_type_def
        is_floating_type_def is_base_binary_type_def is_fixed_size_binary_type_def)
  from ArrayCompareSorter_result[of ordered_type id vs options, OF ordered_type_key]
  show ?thesis
    by (simp add: GetArraySorter_eq s)
qed

lemma sorter_for_floating:
  assumes "well_typed ty (FloatingData vs)"
  shows "\<exists>s. GetArraySorter (GetPhysicalType ty) = Inr s \<and>
     call_sorter s [0..<length vs] (FloatingData vs) 0 options =
       Some (expected_layout (null_placement options)
               (sorted_value_rows fin_value floating_type vs (order options))
               (null_like_rows floating_type vs) (null_rows vs),
             expected_partition (null_placement options)
               (length (value_rows floating_type vs)) (length vs))"
proof -
  have s: "ArraySorter (GetPhysicalType ty) = Some CompareSorter"
    using assms by (auto simp: GetPhysicalType_def ArraySorter_def is_integer_type_def
        is_floating_type_def)
  from ArrayCompareSorter_result[of floating_type fin_value vs options, OF floating_type_key]
  show ?thesis
    by (simp add: GetArraySorter_eq s)
qed

lemma sorter_for_binary:
  assumes "well_typed ty (BinaryData vs)"
  shows "\<exists>s. GetArraySorter (GetPhysicalType ty) = Inr s \<and>
     call_sorter s [0..<length vs] (BinaryData vs) 0 options =
       Some (expected_layout (null_placement options)
               (sorted_value_rows id ordered_type vs (order options))
               (null_like_rows ordered_type vs) (null_rows vs),
             expected_partition (null_placement options)
               (length (value_rows ordered_type vs)) (length vs))"
proof -
  have s: "ArraySorter (GetPhysicalType ty) = Some CompareSorter"
    using assms by (auto simp: GetPhysicalType_def ArraySorter_def is_integer_type_def
        is_floating_type_def is_base_binary_type_def is_fixed_size_binary_type_def)
  from ArrayCompareSorter_result[of ordered_type id vs options, OF ordered_type_key]
  show ?thesis
    by (simp add: GetArraySorter_eq s)
qed

lemma sorter_for_boolean:
  assumes "well_typed ty (BooleanData vs)"
  shows "\<exists>s. GetArraySorter (GetPhysicalType ty) = Inr s \<and>
     call_sorter s [0..<length vs] (BooleanData vs) 0 options =
       Some (expected_layout (null_placement options)
               (sorted_value_rows b2i ordered_type vs (order options))
               (null_like_rows ordered_type vs) (null_rows vs),
             expected_partition (null_placement options)
               (length (value_rows ordered_type vs)) (length vs))"
  using assms ArrayCountSorter_Boolean_result[of vs options]
  by (simp add: GetArraySorter_eq GetPhysicalType_def ArraySorter_def)

lemma sorter_for_null:
  assumes "well_typed ty (NullData n)"
  shows "\<exists>s. GetArraySorter (GetPhysicalType ty) = Inr s \<and>
     call_sorter s [0..<n] (NullData n) 0 options =
       Some ([0..<n], NullsOnly 0 n (null_placement options))"
  using assms
  by (simp add: GetArraySorter_eq GetPhysicalType_def ArraySorter_def ArrayNullSorter_def)

lemma Exec_via_sorter:
  assumes "GetArraySorter (GetPhysicalType ty) = Inr s"
    and "call_sorter s [0..<array_length arr] arr 0 options = Some (ix, p)"
  shows "ArraySortIndices_Exec options ty arr out = Some (OK, ix @ drop (array_length arr) out)"
  using assms by (simp add: ArraySortIndices_Exec_def std_iota_def)

lemma lifted_layout_good:
  fixes key :: "'v \<Rightarrow> 'k::linorder"
  assumes key: "\<And>a b. \<not> is_null_like T a \<Longrightarrow> \<not> is_null_like T b \<Longrightarrow> value_less T a b = (key a < key b)"
    and less: "\<And>a b. value_less logical_type (g a) (g b) = value_less T a b"
    and nan: "\<And>a. is_null_like logical_type (g a) = is_null_like T a"
    and inj: "inj g"
  shows "stable_output (map (map_option g) vs)
           (expected_layout (null_placement options)
              (sorted_value_rows key T vs (order options)) (null_like_rows T vs) (null_rows vs)) \<and>
         sorted_output logical_type options (map (map_option g) vs)
           (expected_layout (null_placement options)
              (sorted_value_rows key T vs (order options)) (null_like_rows T vs) (null_rows vs))"
proof -
  let ?ix = "expected_layout (null_placement options)
              (sorted_value_rows key T vs (order options)) (null_like_rows T vs) (null_rows vs)"
  note good = expected_layout_good[where T=T and key=key and vs=vs and options=options, OF key]
  have "set ?ix = set [0..<length vs]"
    using good(2) by (intro mset_eq_setD) (simp add: sorted_output_def)
  then have inr: "\<forall>i \<in> set ?ix. i < length vs" by simp
  show ?thesis
    using stable_output_map[OF inj good(1) inr] sorted_output_map[OF less nan good(2)]
    by simp
qed

lemma null_rows_good:
  "stable_output (replicate n (None :: 'v option)) [0..<n]"
  "sorted_output T options (replicate n (None :: 'v option)) [0..<n]"
proof -
  show "stable_output (replicate n (None :: 'v option)) [0..<n]"
    by (simp add: stable_output_def)
  have "map ((!) (replicate n (None :: 'v option))) [0..<n] = replicate n None"
    by (rule nth_equalityI) simp_all
  moreover have "sorted_wrt (in_output_order T (order options) (null_placement options))
      (replicate n (None :: 'v option))"
    by (simp add: sorted_wrt_iff_nth_less in_output_order_def)
  ultimately show "sorted_output T options (replicate n (None :: 'v option)) [0..<n]"
    by (simp add: sorted_output_def)
qed

lemma kernel_sorts:
  assumes "well_typed ty arr"
  shows "\<exists>ix. ArraySortIndices_Exec options ty arr out = Some (OK, ix @ drop (array_length arr) out) \<and>
           stable_output (logical_rows arr) ix \<and>
           sorted_output logical_type options (logical_rows arr) ix"
proof (cases arr)
  case (NullData n)
  from sorter_for_null[of ty n options] assms NullData obtain s where
    "GetArraySorter (GetPhysicalType ty) = Inr s"
    "call_sorter s [0..<array_length arr] arr 0 options = Some ([0..<n], NullsOnly 0 n (null_placement options))"
    by auto
  from Exec_via_sorter[OF this, of out] show ?thesis
    using null_rows_good(1)[where n=n] null_rows_good(2)[where n=n and T=logical_type and options=options] NullData by auto
next
  case (BooleanData vs)
  from sorter_for_boolean[of ty vs options] assms BooleanData obtain s where
    "GetArraySorter (GetPhysicalType ty) = Inr s"
    "call_sorter s [0..<array_length arr] arr 0 options =
       Some (expected_layout (null_placement options)
               (sorted_value_rows b2i ordered_type vs (order options))
               (null_like_rows ordered_type vs) (null_rows vs),
             expected_partition (null_placement options)
               (length (value_rows ordered_type vs)) (length vs))"
    by auto
  from Exec_via_sorter[OF this, of out] show ?thesis
    using lifted_layout_good[where T=ordered_type and key=b2i and g=BoolValue and vs=vs and options=options, OF b2i_key] BooleanData
    by (auto simp: logical_type_def ordered_type_def inj_def)
next
  case (IntegerData vs)
  from sorter_for_integer[of ty vs options] assms IntegerData obtain s where
    "GetArraySorter (GetPhysicalType ty) = Inr s"
    "call_sorter s [0..<array_length arr] arr 0 options =
       Some (expected_layout (null_placement options)
               (sorted_value_rows id ordered_type vs (order options))
               (null_like_rows ordered_type vs) (null_rows vs),
             expected_partition (null_placement options)
               (length (value_rows ordered_type vs)) (length vs))"
    by auto
  from Exec_via_sorter[OF this, of out] show ?thesis
    using lifted_layout_good[where T=ordered_type and key=id and g=IntValue and vs=vs and options=options, OF ordered_type_key] IntegerData
    by (auto simp: logical_type_def ordered_type_def inj_def)
next
  case (FloatingData vs)
  from sorter_for_floating[of ty vs options] assms FloatingData obtain s where
    "GetArraySorter (GetPhysicalType ty) = Inr s"
    "call_sorter s [0..<array_length arr] arr 0 options =
       Some (expected_layout (null_placement options)
               (sorted_value_rows fin_value floating_type vs (order options))
               (null_like_rows floating_type vs) (null_rows vs),
             expected_partition (null_placement options)
               (length (value_rows floating_type vs)) (length vs))"
    by auto
  from Exec_via_sorter[OF this, of out] show ?thesis
    using lifted_layout_good[where T=floating_type and key=fin_value and g=FloatValue and vs=vs and options=options, OF floating_type_key] FloatingData
    by (auto simp: logical_type_def floating_type_def inj_def)
next
  case (BinaryData vs)
  from sorter_for_binary[of ty vs options] assms BinaryData obtain s where
    "GetArraySorter (GetPhysicalType ty) = Inr s"
    "call_sorter s [0..<array_length arr] arr 0 options =
       Some (expected_layout (null_placement options)
               (sorted_value_rows id ordered_type vs (order options))
               (null_like_rows ordered_type vs) (null_rows vs),
             expected_partition (null_placement options)
               (length (value_rows ordered_type vs)) (length vs))"
    by auto
  from Exec_via_sorter[OF this, of out] show ?thesis
    using lifted_layout_good[where T=ordered_type and key=id and g=BinaryValue and vs=vs and options=options, OF ordered_type_key] BinaryData
    by (auto simp: logical_type_def ordered_type_def inj_def)
next
  case (NestedData n)
  then show ?thesis using assms by simp
qed

lemma sorter_returnsI: "r = Some (ix, p) \<Longrightarrow> P ix p \<Longrightarrow> sorter_returns r P"
  by (simp add: sorter_returns_def)

lemma kernel_returnsI:
  "r = Some (OK, ix @ drop n out) \<Longrightarrow> length ix = n \<Longrightarrow> P ix \<Longrightarrow> kernel_returns r n out P"
  by (simp add: kernel_returns_def)

lemma expected_partition_ok:
  "partition_ok pl (length vs) (expected_partition pl (length (value_rows T vs)) (length vs))"
  using length_value_rows_le[of T vs] by (simp add: partition_ok_def expected_partition_def)

lemma length_logical_rows [simp]: "length (logical_rows arr) = array_length arr"
  by (cases arr) simp_all

lemma sorted_output_length: "sorted_output T options vs ix \<Longrightarrow> length ix = length vs"
  using mset_eq_length[of ix "[0..<length vs]"] by (simp add: sorted_output_def)

lemma compare_sorter_ordered_result:
  fixes vs :: "'v::linorder Array"
  shows "ArrayCompareSorter ordered_type [0..<length vs] vs 0 options =
     Some (expected_layout (null_placement options)
             (sorted_value_rows id ordered_type vs (order options)) (null_like_rows ordered_type vs) (null_rows vs),
           expected_partition (null_placement options) (length (value_rows ordered_type vs)) (length vs))"
  by (rule ArrayCompareSorter_result) (simp add: ordered_type_def)

lemma compare_sorter_floating_result:
  fixes fs :: "'a::linorder flt Array"
  shows "ArrayCompareSorter floating_type [0..<length fs] fs 0 options =
     Some (expected_layout (null_placement options)
             (sorted_value_rows fin_value floating_type fs (order options)) (null_like_rows floating_type fs) (null_rows fs),
           expected_partition (null_placement options) (length (value_rows floating_type fs)) (length fs))"
  by (rule ArrayCompareSorter_result) (rule floating_type_key; assumption)

lemma ordered_layout_good:
  fixes vs :: "'v::linorder Array"
  shows "stable_output vs (expected_layout (null_placement options)
           (sorted_value_rows id ordered_type vs (order options)) (null_like_rows ordered_type vs) (null_rows vs))"
    and "sorted_output ordered_type options vs (expected_layout (null_placement options)
           (sorted_value_rows id ordered_type vs (order options)) (null_like_rows ordered_type vs) (null_rows vs))"
  by (rule expected_layout_good; simp add: ordered_type_def)+

lemma kernel_sorts_returns:
  assumes "well_typed ty arr"
  shows "kernel_returns (ArraySortIndices_Exec options ty arr out) (array_length arr) out
           (\<lambda>ix. stable_output (logical_rows arr) ix \<and>
                 sorted_output logical_type options (logical_rows arr) ix)"
proof -
  from kernel_sorts[OF assms, of options out] obtain ix where
    ix: "ArraySortIndices_Exec options ty arr out = Some (OK, ix @ drop (array_length arr) out)"
    "stable_output (logical_rows arr) ix" "sorted_output logical_type options (logical_rows arr) ix"
    by blast
  have "length ix = array_length arr"
    using sorted_output_length[OF ix(3)] by simp
  then show ?thesis
    using ix by (intro kernel_returnsI[of _ ix]) simp_all
qed

lemma kernel_returns_mono:
  "kernel_returns r n out P \<Longrightarrow> (\<And>ix. P ix \<Longrightarrow> Q ix) \<Longrightarrow> kernel_returns r n out Q"
  by (auto simp: kernel_returns_def split: option.splits)

lemma unsupported_types:
  "ArraySorter t = None \<longleftrightarrow>
     t \<in> set [DATE32, DATE64, TIMESTAMP, TIME32, TIME64, INTERVAL_MONTHS, INTERVAL_DAY_TIME,
              LIST, STRUCT, SPARSE_UNION, DENSE_UNION, DICTIONARY, MAP, EXTENSION, FIXED_SIZE_LIST,
              DURATION, LARGE_LIST]"
  by (cases t) (simp_all add: ArraySorter_def one_byte_sorters is_integer_type_def sizeof_c_type_def is_floating_type_def
      is_base_binary_type_def is_fixed_size_binary_type_def)

lemma Exec_unsupported:
  "ArraySorter (GetPhysicalType ty) = None \<Longrightarrow>
   ArraySortIndices_Exec options ty arr out =
     Some (TypeError (''Sorting not supported for type '' @ ToString (GetPhysicalType ty)), out)"
  by (simp add: ArraySortIndices_Exec_def GetArraySorter_eq)


lemma partitioner_okD:
  assumes "partitioner_ok part" and "part pred xs = (seg, m)"
  shows "mset seg = mset xs" and "m = length (filter pred xs)"
    and "list_all pred (take m seg)" and "list_all (\<lambda>x. \<not> pred x) (drop m seg)"
proof -
  from assms(1) have "mset (fst (part pred xs)) = mset xs \<and>
        snd (part pred xs) = length (filter pred xs) \<and>
        list_all pred (take (snd (part pred xs)) (fst (part pred xs))) \<and>
        list_all (\<lambda>x. \<not> pred x) (drop (snd (part pred xs)) (fst (part pred xs)))"
    unfolding partitioner_ok_def by blast
  then show "mset seg = mset xs" and "m = length (filter pred xs)"
    and "list_all pred (take m seg)" and "list_all (\<lambda>x. \<not> pred x) (drop m seg)"
    using assms(2) by auto
qed

lemma partitioner_ok_length:
  assumes "partitioner_ok part" and "part pred xs = (seg, m)"
  shows "length seg = length xs" and "m \<le> length xs"
proof -
  from partitioner_okD(1)[OF assms] show "length seg = length xs"
    by (rule mset_eq_length)
  from partitioner_okD(2)[OF assms] show "m \<le> length xs" by simp
qed

lemma partitioner_ok_Stable: "partitioner_ok StablePartitioner"
  by (auto simp: partitioner_ok_def StablePartitioner_def list_all_iff)

lemma sorted_insort_by:
  assumes asym: "\<And>a b. a \<in> S \<Longrightarrow> b \<in> S \<Longrightarrow> cmp a b \<Longrightarrow> \<not> cmp b a"
    and ntr: "\<And>a b c. a \<in> S \<Longrightarrow> b \<in> S \<Longrightarrow> c \<in> S \<Longrightarrow> cmp a c \<Longrightarrow> cmp a b \<or> cmp b c"
  shows "x \<in> S \<Longrightarrow> set ys \<subseteq> S \<Longrightarrow> sorted_wrt (\<lambda>a b. \<not> cmp b a) ys \<Longrightarrow>
     sorted_wrt (\<lambda>a b. \<not> cmp b a) (insort_by cmp x ys)"
proof (induction ys)
  case Nil
  then show ?case by simp
next
  case (Cons y ys)
  show ?case
  proof (cases "cmp y x")
    case True
    have "sorted_wrt (\<lambda>a b. \<not> cmp b a) (insort_by cmp x ys)"
      using Cons by simp
    moreover have "\<forall>z \<in> set (insort_by cmp x ys). \<not> cmp z y"
    proof
      fix z assume "z \<in> set (insort_by cmp x ys)"
      then consider "z = x" | "z \<in> set ys" by (auto simp: set_insort_by)
      then show "\<not> cmp z y"
      proof cases
        case 1
        then show ?thesis using asym[of y x] True Cons.prems by auto
      next
        case 2
        then show ?thesis using Cons.prems(3) by auto
      qed
    qed
    ultimately show ?thesis using True by simp
  next
    case False
    have "\<forall>z \<in> set (y # ys). \<not> cmp z x"
    proof
      fix z assume z: "z \<in> set (y # ys)"
      show "\<not> cmp z x"
      proof (cases "z = y")
        case True
        then show ?thesis using False by simp
      next
        case F: False
        then have zy: "z \<in> set ys" using z by simp
        then have "\<not> cmp z y" using Cons.prems(3) by auto
        moreover have "z \<in> S" "y \<in> S" using zy Cons.prems(2) by auto
        ultimately show ?thesis using ntr[of z y x] False Cons.prems(1) by blast
      qed
    qed
    then show ?thesis using False Cons.prems(3) by simp
  qed
qed

lemma sorted_std_stable_sort_gen:
  assumes asym: "\<And>a b. a \<in> S \<Longrightarrow> b \<in> S \<Longrightarrow> cmp a b \<Longrightarrow> \<not> cmp b a"
    and ntr: "\<And>a b c. a \<in> S \<Longrightarrow> b \<in> S \<Longrightarrow> c \<in> S \<Longrightarrow> cmp a c \<Longrightarrow> cmp a b \<or> cmp b c"
  shows "set xs \<subseteq> S \<Longrightarrow> sorted_wrt (\<lambda>a b. \<not> cmp b a) (std_stable_sort cmp xs)"
proof (induction xs)
  case Nil
  then show ?case by (simp add: std_stable_sort_def)
next
  case (Cons x xs)
  have "sorted_wrt (\<lambda>a b. \<not> cmp b a) (std_stable_sort cmp xs)" using Cons by simp
  moreover have "set (std_stable_sort cmp xs) \<subseteq> S" using Cons.prems by (simp add: set_std_stable_sort)
  moreover have "x \<in> S" using Cons.prems by simp
  ultimately have "sorted_wrt (\<lambda>a b. \<not> cmp b a) (insort_by cmp x (std_stable_sort cmp xs))"
    by (intro sorted_insort_by[where S=S] asym ntr) auto
  then show ?case by (simp add: std_stable_sort_def)
qed

lemma mset_insort_by: "mset (insort_by cmp x ys) = add_mset x (mset ys)"
  by (induction ys) simp_all

lemma mset_std_stable_sort: "mset (std_stable_sort cmp xs) = mset xs"
  by (induction xs) (simp_all add: std_stable_sort_def mset_insort_by)

lemma nth_element_ok_sort: "nth_element_ok (\<lambda>cmp xs n. std_stable_sort cmp xs)"
  unfolding nth_element_ok_def
proof (intro allI impI conjI ballI)
  fix cmp :: "nat \<Rightarrow> nat \<Rightarrow> bool" and xs :: "nat list" and n :: nat
  assume sw: "strict_weak_on xs cmp" and n: "n < length xs"
  show "mset (std_stable_sort cmp xs) = mset xs" by (rule mset_std_stable_sort)
  have len: "length (std_stable_sort cmp xs) = length xs"
    using mset_std_stable_sort[of cmp xs] by (rule mset_eq_length)
  have srt: "sorted_wrt (\<lambda>a b. \<not> cmp b a) (std_stable_sort cmp xs)"
    by (rule sorted_std_stable_sort_gen[where S="set xs"])
       (use sw in \<open>auto simp: strict_weak_on_def\<close>)
  have irr: "\<not> cmp a a" if "a \<in> set xs" for a
    using sw that unfolding strict_weak_on_def by blast
  fix i j assume i: "i \<le> n" and j: "j < length xs" and nj: "n \<le> j"
  show "\<not> cmp (std_stable_sort cmp xs ! j) (std_stable_sort cmp xs ! i)"
  proof (cases "i = j")
    case True
    have "std_stable_sort cmp xs ! j \<in> set xs"
      using j len set_std_stable_sort[of cmp xs] nth_mem[of j "std_stable_sort cmp xs"] by simp
    then show ?thesis using True irr by simp
  next
    case False
    then have "i < j" using i nj by simp
    then show ?thesis using srt j len by (simp add: sorted_wrt_iff_nth_less)
  qed
qed

lemma no_nulls_rows:
  assumes "null_count vs = 0"
  shows "list_all (\<lambda>i. \<not> IsNull vs i) [0..<length vs]"
proof -
  from assms have "\<forall>x \<in> set vs. x \<noteq> None"
    by (auto simp: null_count_def filter_empty_conv)
  then show ?thesis by (auto simp: list_all_iff IsNull_def)
qed

lemma PartitionNullsOnly_ok:
  assumes ok: "partitioner_ok part"
    and r: "PartitionNullsOnly part [0..<length vs] 0 (length vs) vs 0 pl = (s1, p1)"
  shows "\<exists>m1 \<le> length vs. mset s1 = mset [0..<length vs] \<and>
     (if pl = AtStart
      then p1 = \<lparr>non_nulls_begin = m1, non_nulls_end = length vs, nulls_begin = 0, nulls_end = m1\<rparr> \<and>
           list_all (IsNull vs) (take m1 s1) \<and> list_all (\<lambda>i. \<not> IsNull vs i) (drop m1 s1)
      else p1 = \<lparr>non_nulls_begin = 0, non_nulls_end = m1, nulls_begin = m1, nulls_end = length vs\<rparr> \<and>
           list_all (\<lambda>i. \<not> IsNull vs i) (take m1 s1) \<and> list_all (IsNull vs) (drop m1 s1))"
proof (cases "null_count vs = 0")
  case True
  then have s1: "s1 = [0..<length vs]" and p1: "p1 = NoNulls 0 (length vs) pl"
    using r by (simp_all add: PartitionNullsOnly_def)
  note nn = no_nulls_rows[OF True]
  show ?thesis
  proof (cases "pl = AtStart")
    case True
    show ?thesis
      by (rule exI[of _ 0]) (use True s1 p1 nn in \<open>simp add: NoNulls_def\<close>)
  next
    case False
    show ?thesis
      by (rule exI[of _ "length vs"]) (use False s1 p1 nn in \<open>simp add: NoNulls_def\<close>)
  qed
next
  case nz: False
  show ?thesis
  proof (cases "pl = AtStart")
    case True
    obtain seg m where pm: "part (\<lambda>ind. IsNull vs (ind - 0)) [0..<length vs] = (seg, m)"
      by (cases "part (\<lambda>ind. IsNull vs (ind - 0)) [0..<length vs]")
    have s1: "s1 = seg" and p1: "p1 = NullsAtStart 0 (length vs) m"
      using r nz True pm by (simp_all add: PartitionNullsOnly_def partition_range_def)
    note d = partitioner_okD[OF ok pm] partitioner_ok_length[OF ok pm]
    show ?thesis
      by (rule exI[of _ m]) (use True s1 p1 d in \<open>simp add: NullsAtStart_def\<close>)
  next
    case False
    obtain seg m where pm: "part (\<lambda>ind. \<not> IsNull vs (ind - 0)) [0..<length vs] = (seg, m)"
      by (cases "part (\<lambda>ind. \<not> IsNull vs (ind - 0)) [0..<length vs]")
    have s1: "s1 = seg" and p1: "p1 = NullsAtEnd 0 (length vs) m"
      using r nz False pm by (simp_all add: PartitionNullsOnly_def partition_range_def)
    note d = partitioner_okD[OF ok pm] partitioner_ok_length[OF ok pm]
    show ?thesis
      by (rule exI[of _ m]) (use False s1 p1 d in \<open>simp add: NullsAtEnd_def\<close>)
  qed
qed

lemma row_kinds:
  "\<not> IsNull vs i \<Longrightarrow> \<not> is_null_like T (GetView vs i) \<Longrightarrow> is_value_row T vs i"
  "\<not> IsNull vs i \<Longrightarrow> is_null_like T (GetView vs i) \<Longrightarrow> is_null_like_row T vs i"
  by (auto simp: IsNull_def GetView_def is_value_row_def is_null_like_row_def split: option.splits)

lemma PartitionNulls_groups:
  assumes ok: "partitioner_ok part"
    and r: "PartitionNulls part T [0..<length vs] vs 0 pl = (buf, p)"
  shows "\<exists>A B C. buf = (if pl = AtStart then C @ B @ A else A @ B @ C) \<and>
      mset buf = mset [0..<length vs] \<and>
      list_all (is_value_row T vs) A \<and> list_all (is_null_like_row T vs) B \<and>
      list_all (IsNull vs) C \<and>
      p = (if pl = AtStart
           then \<lparr>non_nulls_begin = length C + length B, non_nulls_end = length vs,
                 nulls_begin = 0, nulls_end = length C + length B\<rparr>
           else \<lparr>non_nulls_begin = 0, non_nulls_end = length A,
                 nulls_begin = length A, nulls_end = length vs\<rparr>)"
proof -
  let ?N = "length vs"
  obtain s1 p1 where r1: "PartitionNullsOnly part [0..<?N] 0 ?N vs 0 pl = (s1, p1)"
    by (cases "PartitionNullsOnly part [0..<?N] 0 ?N vs 0 pl")
  from PartitionNullsOnly_ok[OF ok r1] obtain m1 where m1: "m1 \<le> ?N"
    and ms1: "mset s1 = mset [0..<?N]"
    and st: "if pl = AtStart
      then p1 = \<lparr>non_nulls_begin = m1, non_nulls_end = ?N, nulls_begin = 0, nulls_end = m1\<rparr> \<and>
           list_all (IsNull vs) (take m1 s1) \<and> list_all (\<lambda>i. \<not> IsNull vs i) (drop m1 s1)
      else p1 = \<lparr>non_nulls_begin = 0, non_nulls_end = m1, nulls_begin = m1, nulls_end = ?N\<rparr> \<and>
           list_all (\<lambda>i. \<not> IsNull vs i) (take m1 s1) \<and> list_all (IsNull vs) (drop m1 s1)"
    by blast
  have ls1: "length s1 = ?N" using mset_eq_length[OF ms1] by simp
  show ?thesis
  proof (cases "pl = AtStart")
    case True
    let ?pred = "\<lambda>ind. is_null_like T (GetView vs (ind - 0))"
    have p1: "p1 = \<lparr>non_nulls_begin = m1, non_nulls_end = ?N, nulls_begin = 0, nulls_end = m1\<rparr>"
      and nu: "list_all (IsNull vs) (take m1 s1)" and nn: "list_all (\<lambda>i. \<not> IsNull vs i) (drop m1 s1)"
      using st True by simp_all
    obtain s2 m2 where pm: "part ?pred (drop m1 s1) = (s2, m2)"
      by (cases "part ?pred (drop m1 s1)")
    note d = partitioner_okD[OF ok pm] partitioner_ok_length[OF ok pm]
    have buf: "buf = take m1 s1 @ s2"
      and p: "p = \<lparr>non_nulls_begin = m1 + m2, non_nulls_end = ?N, nulls_begin = 0, nulls_end = m1 + m2\<rparr>"
      using r r1 p1 True pm ls1
      by (simp_all add: PartitionNulls_def PartitionNullLikes_def partition_range_def NullsAtStart_def)
    have set2: "set s2 = set (drop m1 s1)" using d(1) by (rule mset_eq_setD)
    have nn2: "\<forall>x \<in> set s2. \<not> IsNull vs x" using nn set2 by (simp add: list_all_iff)
    have B: "list_all (is_null_like_row T vs) (take m2 s2)"
      using d(3) nn2 row_kinds(2)[of vs _ T]
      by (auto simp: list_all_iff dest: in_set_takeD)
    have A: "list_all (is_value_row T vs) (drop m2 s2)"
      using d(4) nn2 row_kinds(1)[of vs _ T]
      by (auto simp: list_all_iff dest: in_set_dropD)
    have ms: "mset buf = mset [0..<?N]"
    proof -
      have "mset buf = mset (take m1 s1) + mset (drop m1 s1)" using buf d(1) by simp
      also have "\<dots> = mset s1" by (simp flip: mset_append)
      finally show ?thesis using ms1 by simp
    qed
    have lb: "length (take m1 s1) + length (take m2 s2) = m1 + m2"
      using m1 ls1 d(5,6) by simp
    show ?thesis
      apply (rule exI[of _ "drop m2 s2"], rule exI[of _ "take m2 s2"], rule exI[of _ "take m1 s1"])
      using True buf ms A B nu p lb by simp
  next
    case False
    let ?pred = "\<lambda>ind. \<not> is_null_like T (GetView vs (ind - 0))"
    have p1: "p1 = \<lparr>non_nulls_begin = 0, non_nulls_end = m1, nulls_begin = m1, nulls_end = ?N\<rparr>"
      and nn: "list_all (\<lambda>i. \<not> IsNull vs i) (take m1 s1)" and nu: "list_all (IsNull vs) (drop m1 s1)"
      using st False by simp_all
    obtain s2 m2 where pm: "part ?pred (take m1 s1) = (s2, m2)"
      by (cases "part ?pred (take m1 s1)")
    note d = partitioner_okD[OF ok pm] partitioner_ok_length[OF ok pm]
    have m21: "m2 \<le> m1" using d(6) by simp
    have buf: "buf = s2 @ drop m1 s1"
      and p: "p = \<lparr>non_nulls_begin = 0, non_nulls_end = m2, nulls_begin = m2, nulls_end = ?N\<rparr>"
      using r r1 p1 False pm ls1 m1 m21
      by (simp_all add: PartitionNulls_def PartitionNullLikes_def partition_range_def NullsAtEnd_def)
    have set2: "set s2 = set (take m1 s1)" using d(1) by (rule mset_eq_setD)
    have nn2: "\<forall>x \<in> set s2. \<not> IsNull vs x" using nn set2 by (simp add: list_all_iff)
    have A: "list_all (is_value_row T vs) (take m2 s2)"
      using d(3) nn2 row_kinds(1)[of vs _ T]
      by (auto simp: list_all_iff dest: in_set_takeD)
    have B: "list_all (is_null_like_row T vs) (drop m2 s2)"
      using d(4) nn2 row_kinds(2)[of vs _ T]
      by (auto simp: list_all_iff dest: in_set_dropD)
    have ms: "mset buf = mset [0..<?N]"
    proof -
      have "mset buf = mset (take m1 s1) + mset (drop m1 s1)" using buf d(1) by simp
      also have "\<dots> = mset s1" by (simp flip: mset_append)
      finally show ?thesis using ms1 by simp
    qed
    have la: "length (take m2 s2) = m2" using d(5) m21 m1 ls1 by simp
    show ?thesis
      apply (rule exI[of _ "take m2 s2"], rule exI[of _ "drop m2 s2"], rule exI[of _ "drop m1 s1"])
      using False buf ms A B nu p la by simp
  qed
qed

lemma row_group_kinds:
  "is_value_row T vs x \<Longrightarrow> row_group pl T (vs ! x) = (if pl = AtStart then 2 else 0)"
  "is_null_like_row T vs x \<Longrightarrow> row_group pl T (vs ! x) = 1"
  "IsNull vs x \<Longrightarrow> row_group pl T (vs ! x) = (if pl = AtStart then 0 else 2)"
  by (auto simp: is_value_row_def is_null_like_row_def IsNull_def row_group_def split: option.splits)

lemma groups_pos:
  fixes G :: "nat \<Rightarrow> nat"
  assumes "list_all (\<lambda>x. G x = a) X" and "list_all (\<lambda>x. G x = b) Y" and "list_all (\<lambda>x. G x = c) Z"
    and "i < length (X @ Y @ Z)"
  shows "G ((X @ Y @ Z) ! i) = (if i < length X then a else if i < length X + length Y then b else c)"
  using assms by (auto simp: nth_append list_all_length)

lemma partitioned_from_groups:
  assumes ms: "mset ix = mset [0..<length vs]"
    and gpos: "\<And>i. i < length vs \<Longrightarrow>
       row_group pl T (vs ! (ix ! i)) = (if i < c1 then 0 else if i < c2 then 1 else 2)"
    and rng: "\<And>i j. i \<le> j \<Longrightarrow> j < length vs \<Longrightarrow> is_value_row T vs (ix ! i) \<Longrightarrow>
       is_value_row T vs (ix ! j) \<Longrightarrow> i = pv \<or> j = pv \<Longrightarrow>
       \<not> value_less T (GetView vs (ix ! j)) (GetView vs (ix ! i))"
    and pv: "pv < length vs"
  shows "partitioned_at T pl vs pv ix"
proof -
  have mono: "row_group pl T (vs ! (ix ! i)) \<le> row_group pl T (vs ! (ix ! j))"
    if "i \<le> j" "j < length vs" for i j
    using gpos[of i] gpos[of j] that by (simp split: if_splits)
  have ord: "in_output_order T Ascending pl (vs ! (ix ! i)) (vs ! (ix ! j))"
    if ij: "i \<le> j" "j < length vs" "i = pv \<or> j = pv" for i j
  proof (cases "row_group pl T (vs ! (ix ! i)) < row_group pl T (vs ! (ix ! j))")
    case True
    then show ?thesis by (simp add: in_output_order_def)
  next
    case False
    then have eq: "row_group pl T (vs ! (ix ! i)) = row_group pl T (vs ! (ix ! j))"
      using mono[OF ij(1,2)] by simp
    show ?thesis
    proof (cases "vs ! (ix ! i)")
      case None
      then show ?thesis using eq by (simp add: in_output_order_def)
    next
      case a: (Some a)
      show ?thesis
      proof (cases "vs ! (ix ! j)")
        case None
        then show ?thesis using eq a by (simp add: in_output_order_def)
      next
        case b: (Some b)
        show ?thesis
        proof (cases "is_null_like T a")
          case True
          then show ?thesis using eq a b by (simp add: in_output_order_def)
        next
          case na: False
          have nb: "\<not> is_null_like T b"
            using eq a b na by (auto simp: row_group_def split: if_splits)
          have "is_value_row T vs (ix ! i)" "is_value_row T vs (ix ! j)"
            using a b na nb by (simp_all add: is_value_row_def)
          from rng[OF ij(1,2) this ij(3)] have "\<not> value_less T b a"
            using a b by (simp add: GetView_def)
          then show ?thesis using eq a b by (simp add: in_output_order_def)
        qed
      qed
    qed
  qed
  show ?thesis
    unfolding partitioned_at_def list_all_iff
    using ms ord pv by auto
qed

lemma strict_weak_value_rows:
  fixes key :: "'v \<Rightarrow> 'k::linorder"
  assumes key: "\<And>a b. \<not> is_null_like T a \<Longrightarrow> \<not> is_null_like T b \<Longrightarrow> value_less T a b = (key a < key b)"
    and A: "list_all (is_value_row T vs) A"
  shows "strict_weak_on A (\<lambda>left right. value_less T (GetView vs left) (GetView vs right))"
proof -
  have nl: "\<not> is_null_like T (GetView vs x)" if "x \<in> set A" for x
    using A that by (auto simp: list_all_iff is_value_row_def GetView_def split: option.splits)
  have eq: "value_less T (GetView vs x) (GetView vs y) = (key (GetView vs x) < key (GetView vs y))"
    if "x \<in> set A" "y \<in> set A" for x y
    using key[OF nl[OF that(1)] nl[OF that(2)]] .
  show ?thesis
    unfolding strict_weak_on_def
    by (auto simp: eq)
qed

lemma nth_element_okD:
  assumes "nth_element_ok sel" and "strict_weak_on xs cmp" and "n < length xs"
  shows "mset (sel cmp xs n) = mset xs"
    and "\<And>i j. i \<le> n \<Longrightarrow> j < length xs \<Longrightarrow> n \<le> j \<Longrightarrow> \<not> cmp (sel cmp xs n ! j) (sel cmp xs n ! i)"
  using assms unfolding nth_element_ok_def by blast+

lemma sorted_groups:
  fixes G :: "nat \<Rightarrow> nat"
  assumes "length ix = n"
    and "\<And>i. i < n \<Longrightarrow> G (ix ! i) = (if i < c1 then 0 else if i < c2 then 1 else 2)"
  shows "sorted (map G ix)"
  unfolding sorted_iff_nth_mono
proof (intro allI impI)
  fix i j assume "i \<le> j" "j < length (map G ix)"
  then have "i < n" "j < n" using assms(1) by simp_all
  then show "map G ix ! i \<le> map G ix ! j"
    using assms(2)[of i] assms(2)[of j] assms(1) \<open>i \<le> j\<close> by (simp split: if_splits)
qed

lemma partition_nth_generic:
  fixes key :: "'v \<Rightarrow> 'k::linorder"
  assumes key: "\<And>a b. \<not> is_null_like T a \<Longrightarrow> \<not> is_null_like T b \<Longrightarrow> value_less T a b = (key a < key b)"
    and ok: "partitioner_ok part" and sel: "nth_element_ok sel"
    and p0: "0 \<le> pivot options" and p1: "pivot options < int (length vs)"
  shows "\<exists>ix. PartitionNthToIndices_Exec part sel T (Some options) vs out = (OK, ix @ drop (length vs) out) \<and>
     partitioned_at T (nth_null_placement options) vs (nat (pivot options)) ix \<and>
     grouped_output T (nth_null_placement options) vs ix"
proof -
  let ?N = "length vs"
  let ?pl = "nth_null_placement options"
  let ?cmp = "\<lambda>left right. value_less T (GetView vs left) (GetView vs right)"
  let ?G = "\<lambda>x. row_group ?pl T (vs ! x)"
  define pv where "pv = nat (pivot options)"
  have pv: "pv < ?N" and ipv: "pivot options = int pv" using p0 p1 by (simp_all add: pv_def)
  obtain buf p where r: "PartitionNulls part T [0..<?N] vs 0 ?pl = (buf, p)"
    by (cases "PartitionNulls part T [0..<?N] vs 0 ?pl")
  have exec: "PartitionNthToIndices_Exec part sel T (Some options) vs out =
      (if non_nulls_begin p \<le> pv \<and> pv < non_nulls_end p
       then (OK, on_range (non_nulls_begin p) (non_nulls_end p)
                   (\<lambda>seg. sel ?cmp seg (pv - non_nulls_begin p)) buf @ drop ?N out)
       else (OK, buf @ drop ?N out))"
    using pv r by (simp add: PartitionNthToIndices_Exec_def std_iota_def Let_def ipv)
  from PartitionNulls_groups[OF ok r] obtain A B C where
    buf: "buf = (if ?pl = AtStart then C @ B @ A else A @ B @ C)"
    and ms: "mset buf = mset [0..<?N]"
    and A: "list_all (is_value_row T vs) A" and B: "list_all (is_null_like_row T vs) B"
    and C: "list_all (IsNull vs) C"
    and p: "p = (if ?pl = AtStart
           then \<lparr>non_nulls_begin = length C + length B, non_nulls_end = ?N,
                 nulls_begin = 0, nulls_end = length C + length B\<rparr>
           else \<lparr>non_nulls_begin = 0, non_nulls_end = length A,
                 nulls_begin = length A, nulls_end = ?N\<rparr>)"
    by blast
  have N: "?N = length A + length B + length C"
    using mset_eq_length[OF ms] buf by (simp split: if_splits)
  have sw: "strict_weak_on A ?cmp" by (rule strict_weak_value_rows[OF key A])
  have GB: "list_all (\<lambda>x. ?G x = 1) B"
    using B row_group_kinds(2)[of T vs _ ?pl] by (auto simp: list_all_iff)
  show ?thesis
  proof (cases "?pl = AtStart")
    case False
    define A' where "A' = (if pv < length A then sel ?cmp A pv else A)"
    have mA: "mset A' = mset A"
      using nth_element_okD(1)[OF sel sw] by (simp add: A'_def)
    have lA: "length A' = length A" using mset_eq_length[OF mA] .
    have sA: "set A' = set A" using mset_eq_setD[OF mA] .
    have A'v: "list_all (is_value_row T vs) A'" using A sA by (simp add: list_all_iff)
    have ord: "\<not> ?cmp (A' ! j) (A' ! i)" if "pv < length A" "i \<le> pv" "j < length A" "pv \<le> j" for i j
      using nth_element_okD(2)[OF sel sw that(1,2,3,4)] that(1) by (simp add: A'_def)
    have ex: "PartitionNthToIndices_Exec part sel T (Some options) vs out =
        (OK, (A' @ B @ C) @ drop ?N out)"
      using exec buf p False on_range_prefix[of A "\<lambda>seg. sel ?cmp seg pv" "B @ C"]
      by (simp add: A'_def)
    have GA: "list_all (\<lambda>x. ?G x = 0) A'"
      using A'v row_group_kinds(1)[of T vs _ ?pl] False by (auto simp: list_all_iff)
    have GC: "list_all (\<lambda>x. ?G x = 2) C"
      using C row_group_kinds(3)[of vs _ ?pl T] False by (auto simp: list_all_iff)
    have gpos: "?G ((A' @ B @ C) ! i) =
        (if i < length A then 0 else if i < length A + length B then 1 else 2)" if "i < ?N" for i
      using groups_pos[of ?G 0 A' 1 B 2 C i, OF GA GB GC] that N lA by simp
    have inA: "i < length A" if "i < ?N" "is_value_row T vs ((A' @ B @ C) ! i)" for i
      using gpos[OF that(1)] row_group_kinds(1)[OF that(2), of ?pl] False
      by (simp split: if_splits)
    have rng: "\<not> ?cmp ((A' @ B @ C) ! j) ((A' @ B @ C) ! i)"
      if ij: "i \<le> j" "j < ?N" "is_value_row T vs ((A' @ B @ C) ! i)"
        "is_value_row T vs ((A' @ B @ C) ! j)" "i = pv \<or> j = pv" for i j
    proof -
      have i: "i < length A" using inA[OF _ ij(3)] ij(1,2) by simp
      have j: "j < length A" using inA[OF ij(2,4)] .
      have pvA: "pv < length A" using ij(5) i j by auto
      have "\<not> ?cmp (A' ! j) (A' ! i)"
        using ord[OF pvA _ j] ij(1,5) by auto
      then show ?thesis using i j lA by (simp add: nth_append)
    qed
    have msx: "mset (A' @ B @ C) = mset [0..<?N]"
      using ms buf False mA by simp
    have "partitioned_at T ?pl vs pv (A' @ B @ C)"
      by (rule partitioned_from_groups[where ?c1.0="length A" and ?c2.0="length A + length B",
            OF msx gpos rng pv])
    moreover have "grouped_output T ?pl vs (A' @ B @ C)"
      unfolding grouped_output_def
      by (rule sorted_groups[where n="?N" and ?c1.0="length A" and ?c2.0="length A + length B"])
         (use N lA gpos in simp_all)
    ultimately show ?thesis using ex by (auto simp: pv_def)
  next
    case True
    let ?b = "length C + length B"
    define A' where "A' = (if ?b \<le> pv then sel ?cmp A (pv - ?b) else A)"
    have pvb: "pv - ?b < length A" if "?b \<le> pv" using that pv N by simp
    have mA: "mset A' = mset A"
      using nth_element_okD(1)[OF sel sw pvb] by (simp add: A'_def)
    have lA: "length A' = length A" using mset_eq_length[OF mA] .
    have sA: "set A' = set A" using mset_eq_setD[OF mA] .
    have A'v: "list_all (is_value_row T vs) A'" using A sA by (simp add: list_all_iff)
    have ord: "\<not> ?cmp (A' ! j) (A' ! i)"
      if "?b \<le> pv" "i \<le> pv - ?b" "j < length A" "pv - ?b \<le> j" for i j
      using nth_element_okD(2)[OF sel sw pvb[OF that(1)] that(2,3,4)] that(1) by (simp add: A'_def)
    have on: "on_range (non_nulls_begin p) (non_nulls_end p) f buf = C @ B @ f A" for f
    proof -
      have "non_nulls_begin p = length (C @ B)" "non_nulls_end p = length (C @ B) + length A"
        using p True N by simp_all
      then show ?thesis using on_range_suffix[of "C @ B" A f] buf True by simp
    qed
    have ex: "PartitionNthToIndices_Exec part sel T (Some options) vs out =
        (OK, (C @ B @ A') @ drop ?N out)"
      unfolding exec on using buf p True pv N by (simp add: A'_def)
    have GA: "list_all (\<lambda>x. ?G x = 2) A'"
      using A'v row_group_kinds(1)[of T vs _ ?pl] True by (auto simp: list_all_iff)
    have GC: "list_all (\<lambda>x. ?G x = 0) C"
      using C row_group_kinds(3)[of vs _ ?pl T] True by (auto simp: list_all_iff)
    have gpos: "?G ((C @ B @ A') ! i) =
        (if i < length C then 0 else if i < length C + length B then 1 else 2)" if "i < ?N" for i
      using groups_pos[of ?G 0 C 1 B 2 A' i, OF GC GB GA] that N lA by simp
    have inA: "?b \<le> i" if "i < ?N" "is_value_row T vs ((C @ B @ A') ! i)" for i
      using gpos[OF that(1)] row_group_kinds(1)[OF that(2), of ?pl] True
      by (simp split: if_splits)
    have nthA: "(C @ B @ A') ! i = A' ! (i - ?b)" if "?b \<le> i" for i
      using that nth_append[of "C @ B" A' i] by simp
    have rng: "\<not> ?cmp ((C @ B @ A') ! j) ((C @ B @ A') ! i)"
      if ij: "i \<le> j" "j < ?N" "is_value_row T vs ((C @ B @ A') ! i)"
        "is_value_row T vs ((C @ B @ A') ! j)" "i = pv \<or> j = pv" for i j
    proof -
      have i: "?b \<le> i" using inA[OF _ ij(3)] ij(1,2) by simp
      have j: "?b \<le> j" using inA[OF ij(2,4)] .
      have pvA: "?b \<le> pv" using ij(5) i j by auto
      have jA: "j - ?b < length A" using ij(2) N j by simp
      have "\<not> ?cmp (A' ! (j - ?b)) (A' ! (i - ?b))"
        using ord[OF pvA _ jA] ij(1,5) i j by auto
      then show ?thesis using nthA[OF i] nthA[OF j] by simp
    qed
    have msx: "mset (C @ B @ A') = mset [0..<?N]"
      using ms buf True mA by simp
    have "partitioned_at T ?pl vs pv (C @ B @ A')"
      by (rule partitioned_from_groups[where ?c1.0="length C" and ?c2.0="length C + length B",
            OF msx gpos rng pv])
    moreover have "grouped_output T ?pl vs (C @ B @ A')"
      unfolding grouped_output_def
      by (rule sorted_groups[where n="?N" and ?c1.0="length C" and ?c2.0="length C + length B"])
         (use N lA gpos in simp_all)
    ultimately show ?thesis using ex by (auto simp: pv_def)
  qed
qed

lemma PartitionNulls_partition:
  assumes ok: "partitioner_ok part"
  shows "snd (PartitionNulls part T [0..<length vs] vs 0 pl) =
         expected_partition pl (length (value_rows T vs)) (length vs)"
proof -
  let ?N = "length vs"
  obtain buf p where r: "PartitionNulls part T [0..<?N] vs 0 pl = (buf, p)"
    by (cases "PartitionNulls part T [0..<?N] vs 0 pl")
  from PartitionNulls_groups[OF ok r] obtain A B C where
    buf: "buf = (if pl = AtStart then C @ B @ A else A @ B @ C)"
    and ms: "mset buf = mset [0..<?N]"
    and A: "list_all (is_value_row T vs) A" and B: "list_all (is_null_like_row T vs) B"
    and C: "list_all (IsNull vs) C"
    and p: "p = (if pl = AtStart
           then \<lparr>non_nulls_begin = length C + length B, non_nulls_end = ?N,
                 nulls_begin = 0, nulls_end = length C + length B\<rparr>
           else \<lparr>non_nulls_begin = 0, non_nulls_end = length A,
                 nulls_begin = length A, nulls_end = ?N\<rparr>)"
    by blast
  have N: "?N = length A + length B + length C"
    using mset_eq_length[OF ms] buf by (simp split: if_splits)
  have fA: "filter (is_value_row T vs) A = A" using A by (simp add: list_all_iff)
  have fB: "filter (is_value_row T vs) B = []"
    using B by (auto simp: list_all_iff filter_empty_conv is_value_row_def is_null_like_row_def
        split: option.splits)
  have fC: "filter (is_value_row T vs) C = []"
    using C by (auto simp: list_all_iff filter_empty_conv is_value_row_def IsNull_def
        split: option.splits)
  have "length (value_rows T vs) = size (filter_mset (is_value_row T vs) (mset [0..<?N]))"
    unfolding value_rows_def by (simp flip: mset_filter del: mset_upt)
  also have "\<dots> = size (filter_mset (is_value_row T vs) (mset buf))" using ms by simp
  also have "\<dots> = length (filter (is_value_row T vs) buf)"
    by (simp flip: mset_filter)
  also have "\<dots> = length A" using buf fA fB fC by (simp split: if_splits)
  finally have nv: "length (value_rows T vs) = length A" .
  show ?thesis using r p nv N by (simp add: expected_partition_def)
qed

lemma partition_nth_steps:
  assumes ok: "partitioner_ok part" and p1: "pivot options < int (length vs)"
  shows "PartitionNthToIndices_Exec part sel T (Some options) vs out =
    (OK,
     (if int (non_nulls_begin (expected_partition (nth_null_placement options)
                (length (value_rows T vs)) (length vs))) \<le> pivot options \<and>
         pivot options < int (non_nulls_end (expected_partition (nth_null_placement options)
                (length (value_rows T vs)) (length vs)))
      then on_range
             (non_nulls_begin (expected_partition (nth_null_placement options)
                (length (value_rows T vs)) (length vs)))
             (non_nulls_end (expected_partition (nth_null_placement options)
                (length (value_rows T vs)) (length vs)))
             (\<lambda>seg. sel (\<lambda>left right. value_less T (GetView vs left) (GetView vs right)) seg
                (nat (pivot options) - non_nulls_begin (expected_partition (nth_null_placement options)
                (length (value_rows T vs)) (length vs))))
             (fst (PartitionNulls part T [0..<length vs] vs 0 (nth_null_placement options)))
      else fst (PartitionNulls part T [0..<length vs] vs 0 (nth_null_placement options)))
     @ drop (length vs) out)"
proof -
  obtain buf p where r: "PartitionNulls part T [0..<length vs] vs 0 (nth_null_placement options) = (buf, p)"
    by (cases "PartitionNulls part T [0..<length vs] vs 0 (nth_null_placement options)")
  have p: "expected_partition (nth_null_placement options) (length (value_rows T vs)) (length vs) = p"
    using PartitionNulls_partition[OF ok, of T vs "nth_null_placement options"] r by simp
  show ?thesis
    unfolding p using p1 r by (simp add: PartitionNthToIndices_Exec_def std_iota_def Let_def)
qed

lemma partition_nth_null_rows:
  assumes "pv < n"
  shows "partitioned_at T pl (replicate n None) pv [0..<n]"
  using assms
  by (auto simp: partitioned_at_def list_all_iff in_output_order_def)

lemma partition_nth_returns:
  fixes key :: "'v \<Rightarrow> 'k::linorder"
  assumes key: "\<And>a b. \<not> is_null_like T a \<Longrightarrow> \<not> is_null_like T b \<Longrightarrow> value_less T a b = (key a < key b)"
    and ok: "partitioner_ok part" and sel: "nth_element_ok sel"
    and p0: "0 \<le> pivot options" and p1: "pivot options < int (length vs)"
  shows "kernel_returns (Some (PartitionNthToIndices_Exec part sel T (Some options) vs out))
           (length vs) out
           (\<lambda>ix. partitioned_at T (nth_null_placement options) vs (nat (pivot options)) ix \<and>
                 grouped_output T (nth_null_placement options) vs ix)"
proof -
  from partition_nth_generic[OF key ok sel p0 p1, of out] obtain ix where
    ix: "PartitionNthToIndices_Exec part sel T (Some options) vs out = (OK, ix @ drop (length vs) out)"
    "partitioned_at T (nth_null_placement options) vs (nat (pivot options)) ix"
    "grouped_output T (nth_null_placement options) vs ix"
    by blast
  have "length ix = length vs"
    using ix(2) mset_eq_length[of ix "[0..<length vs]"] by (simp add: partitioned_at_def)
  then show ?thesis using ix by (simp add: kernel_returns_def)
qed

lemma partition_nth_nan_example:
  assumes ok: "partitioner_ok part" and sel: "nth_element_ok sel"
  shows "PartitionNthToIndices_Exec part sel floating_type
           (Some \<lparr>pivot = 1, nth_null_placement = AtStart\<rparr>) [Some (Fin (1::real)), Some NaN] out
         = (OK, [1, 0] @ drop 2 out)"
proof -
  let ?vs = "[Some (Fin (1::real)), Some NaN]"
  let ?o = "\<lparr>pivot = 1, nth_null_placement = AtStart\<rparr>"
  have "\<exists>ix. PartitionNthToIndices_Exec part sel floating_type (Some ?o) ?vs out
          = (OK, ix @ drop (length ?vs) out) \<and>
        partitioned_at floating_type (nth_null_placement ?o) ?vs (nat (pivot ?o)) ix \<and>
        grouped_output floating_type (nth_null_placement ?o) ?vs ix"
    by (rule partition_nth_generic[where key=fin_value, OF _ ok sel])
       (simp_all add: floating_type_key)
  then obtain ix where e0: "PartitionNthToIndices_Exec part sel floating_type (Some ?o) ?vs out
          = (OK, ix @ drop (length ?vs) out)"
    and pa: "partitioned_at floating_type (nth_null_placement ?o) ?vs (nat (pivot ?o)) ix"
    and g0: "grouped_output floating_type (nth_null_placement ?o) ?vs ix"
    by blast
  have l2: "length ?vs = 2" by simp
  have ex: "PartitionNthToIndices_Exec part sel floating_type (Some ?o) ?vs out
          = (OK, ix @ drop 2 out)"
    using e0 unfolding l2 .
  have ms: "mset ix = mset [0..<2]" using pa unfolding partitioned_at_def l2 by blast
  have gr: "sorted (map (\<lambda>i. row_group AtStart floating_type (?vs ! i)) ix)"
    using g0 by (simp add: grouped_output_def)
  have len: "length ix = Suc (Suc 0)" using mset_eq_length[OF ms] by simp
  then obtain a b where ix: "ix = [a, b]"
    by (auto simp: length_Suc_conv)
  have u: "[0..<2] = [0, Suc 0]" by (simp add: upt_rec)
  have st: "set ix = {0, Suc 0}" using mset_eq_setD[OF ms] unfolding u by simp
  have di: "distinct ix" using mset_eq_imp_distinct_iff[OF ms] unfolding u by simp
  have ab: "(a = 0 \<and> b = Suc 0) \<or> (a = Suc 0 \<and> b = 0)"
    using st di unfolding ix by (auto simp: doubleton_eq_iff)
  have g01: "\<not> sorted (map (\<lambda>i. row_group AtStart floating_type (?vs ! i)) [0, Suc 0])"
    by (simp add: row_group_def floating_type_def)
  have "a = Suc 0 \<and> b = 0" using ab gr g01 unfolding ix by blast
  then show ?thesis using ex ix by simp
qed

section \<open>Properties of \<^verbatim>\<open>partition_nth_indices\<close>\<close>

lemma partition_nth_pivot_check:
  "pivot options > int (length arr) \<Longrightarrow>
     PartitionNthToIndices_Exec part sel T (Some options) arr out
       = (IndexError ''NthToIndices index out of bound'', out)"
  "pivot options = int (length arr) \<Longrightarrow>
     PartitionNthToIndices_Exec part sel T (Some options) arr out
       = (OK, [0..<length arr] @ drop (length arr) out)"
  by (simp_all add: PartitionNthToIndices_Exec_def std_iota_def)

text \<open>
  C7: a pivot above the length of the array is to be answered by an index error that
  leaves the output buffer as it was. The kernel for the value types does so, and
  returns the identity permutation for a pivot equal to the length
  (\<open>partition_nth_pivot_check\<close>). The kernel for the null type does not check the pivot:
  on an array of two nulls with pivot 3 it overwrites the buffer and reports success,
  where the kernel for a value type reports the index error on an array of two rows.
\<close>

theorem partition_nth_null_type_misses_pivot_check:
  "PartitionNthToIndices_Null_Exec (Some \<lparr>pivot = 3, nth_null_placement = AtEnd\<rparr>) 2 [7, 7]
     = (OK, [0, 1]) \<and>
   PartitionNthToIndices_Exec part sel T (Some \<lparr>pivot = 3, nth_null_placement = AtEnd\<rparr>)
       [None, None] [7, 7]
     = (IndexError ''NthToIndices index out of bound'', [7, 7])"
  by (simp add: PartitionNthToIndices_Null_Exec_def PartitionNthToIndices_Exec_def std_iota_def
      upt_rec)

text \<open>
  C10: on a null-typed array of length \<open>N\<close> the kernel succeeds with the identity
  permutation \<open>0..N-1\<close> in the first \<open>N\<close> slots of the output for every pivot, also one
  above \<open>N\<close>, and whatever the null placement: the specialisation reads neither and
  partitions nothing.
\<close>

theorem partition_nth_null_type_identity:
  "PartitionNthToIndices_Null_Exec (Some options) N out = (OK, [0..<N] @ drop N out)"
  by (simp add: PartitionNthToIndices_Null_Exec_def std_iota_def)

section \<open>Counting sort against comparison sort\<close>


section \<open>The sort kernel\<close>

text \<open>
  C1: for every array of a supported type and every \<^verbatim>\<open>ArraySortOptions\<close> the kernel
  \<^verbatim>\<open>array_sort_indices\<close> returns \<^verbatim>\<open>Status::OK\<close>, fills the first \<open>N\<close> slots of the
  output buffer and its output is stable: for every logical value \<open>c\<close> (null included),
  the indices of the rows holding \<open>c\<close> appear in the output in increasing order. The same
  holds for the two paths taken alone on an integer array of a type \<open>t\<close>: the
  comparison sorter, and the counting sorter set to bounds \<open>mn\<close>, \<open>mx\<close> of the values
  with \<open>mx - mn < 2^32 - 3\<close> and \<open>mx - mn\<close> exact in the \<^verbatim>\<open>c_type\<close> of \<open>t\<close>.
\<close>

theorem sort_indices_stable:
  assumes "well_typed ty arr" and "mn \<le> mx" and "mx - mn < 2 ^ 32 - 3"
    and "c_sub t mx mn = Some (mx - mn)" and "in_bounds mn mx vs"
  shows "kernel_returns (ArraySortIndices_Exec options ty arr out) (array_length arr) out
           (stable_output (logical_rows arr)) \<and>
         sorter_returns (ArrayCompareSorter ordered_type [0..<length vs] vs 0 options)
           (\<lambda>ix p. stable_output vs ix) \<and>
         sorter_returns (ArrayCountSorter_of t mn mx [0..<length vs] vs 0 options)
           (\<lambda>ix p. stable_output vs ix)"
proof -
  have k: "kernel_returns (ArraySortIndices_Exec options ty arr out) (array_length arr) out
           (stable_output (logical_rows arr))"
    by (rule kernel_returns_mono[OF kernel_sorts_returns[OF assms(1)]]) simp
  note good = ordered_layout_good(1)[of vs options]
  have a: "sorter_returns (ArrayCompareSorter ordered_type [0..<length vs] vs 0 options)
           (\<lambda>ix p. stable_output vs ix)"
    by (rule sorter_returnsI[OF compare_sorter_ordered_result[of vs options]])
       (use good in simp)
  have b: "sorter_returns (ArrayCountSorter_of t mn mx [0..<length vs] vs 0 options)
           (\<lambda>ix p. stable_output vs ix)"
    by (rule sorter_returnsI[OF ArrayCountSorter_of_result[OF assms(2,3,4,5), of options]])
       (use good in simp)
  show ?thesis using k a b by blast
qed

theorem sort_indices_stable_witness:
  "well_typed DOUBLE (FloatingData [Some (Fin 1), Some NaN, None, Some (Fin 0)]) \<and>
   (1::int) \<le> 3 \<and> (3::int) - 1 < 2 ^ 32 - 3 \<and> c_sub INT32 3 1 = Some (3 - 1) \<and>
   in_bounds 1 3 [Some 3, Some 1, Some 3, Some 2] \<and>
   kernel_returns
     (ArraySortIndices_Exec \<lparr>order = Ascending, null_placement = AtEnd\<rparr> DOUBLE
        (FloatingData [Some (Fin 1), Some NaN, None, Some (Fin 0)]) [9, 9, 9, 9])
     (array_length (FloatingData [Some (Fin 1), Some NaN, None, Some (Fin 0)])) [9, 9, 9, 9]
     (stable_output (logical_rows (FloatingData [Some (Fin 1), Some NaN, None, Some (Fin 0)]))) \<and>
   sorter_returns
     (ArrayCountSorter_of INT32 1 3 [0..<length [Some (3::int), Some 1, Some 3, Some 2]]
        [Some 3, Some 1, Some 3, Some 2] 0 \<lparr>order = Ascending, null_placement = AtEnd\<rparr>)
     (\<lambda>ix p. stable_output [Some (3::int), Some 1, Some 3, Some 2] ix)"
proof -
  have h: "well_typed DOUBLE (FloatingData [Some (Fin 1), Some NaN, None, Some (Fin 0)])"
    "(1::int) \<le> 3" "(3::int) - 1 < 2 ^ 32 - 3" "c_sub INT32 3 1 = Some (3 - 1)"
    "in_bounds 1 3 [Some 3, Some 1, Some 3, Some 2]"
    by (simp_all add: in_bounds_def c_sub_def is_signed_integer_type_def sizeof_c_type_def)
  from sort_indices_stable[OF h, where options = "\<lparr>order = Ascending, null_placement = AtEnd\<rparr>"
      and out = "[9, 9, 9, 9]"]
  show ?thesis using h by blast
qed

text \<open>
  C2, as the code has it: for every array of a supported type and every
  \<^verbatim>\<open>ArraySortOptions\<close> the first \<open>N\<close> slots of the output buffer of
  \<^verbatim>\<open>array_sort_indices\<close> hold a permutation of \<open>0..<N\<close>. Read through it, the rows come
  in three groups laid out by the null placement alone, whatever the sort order:
  values, NaNs, nulls for \<^verbatim>\<open>AtEnd\<close> and nulls, NaNs, values for \<^verbatim>\<open>AtStart\<close>; the values
  proper (neither null nor NaN) are non-decreasing for \<^verbatim>\<open>Ascending\<close> and non-increasing
  for \<^verbatim>\<open>Descending\<close>. The same holds for the comparison sorter and for the counting
  sorter taken alone.
\<close>

theorem sort_indices_sorted_permutation:
  assumes "well_typed ty arr" and "mn \<le> mx" and "mx - mn < 2 ^ 32 - 3"
    and "c_sub t mx mn = Some (mx - mn)" and "in_bounds mn mx vs"
  shows "kernel_returns (ArraySortIndices_Exec options ty arr out) (array_length arr) out
           (sorted_output logical_type options (logical_rows arr)) \<and>
         sorter_returns (ArrayCompareSorter ordered_type [0..<length vs] vs 0 options)
           (\<lambda>ix p. sorted_output ordered_type options vs ix) \<and>
         sorter_returns (ArrayCountSorter_of t mn mx [0..<length vs] vs 0 options)
           (\<lambda>ix p. sorted_output ordered_type options vs ix)"
proof -
  have k: "kernel_returns (ArraySortIndices_Exec options ty arr out) (array_length arr) out
           (sorted_output logical_type options (logical_rows arr))"
    by (rule kernel_returns_mono[OF kernel_sorts_returns[OF assms(1)]]) simp
  note good = ordered_layout_good(2)[of options vs]
  have a: "sorter_returns (ArrayCompareSorter ordered_type [0..<length vs] vs 0 options)
           (\<lambda>ix p. sorted_output ordered_type options vs ix)"
    by (rule sorter_returnsI[OF compare_sorter_ordered_result[of vs options]])
       (use good in simp)
  have b: "sorter_returns (ArrayCountSorter_of t mn mx [0..<length vs] vs 0 options)
           (\<lambda>ix p. sorted_output ordered_type options vs ix)"
    by (rule sorter_returnsI[OF ArrayCountSorter_of_result[OF assms(2,3,4,5), of options]])
       (use good in simp)
  show ?thesis using k a b by blast
qed

theorem sort_indices_sorted_permutation_witness:
  "well_typed INT32 (IntegerData [Some 5, None, Some 1]) \<and>
   (1::int) \<le> 5 \<and> (5::int) - 1 < 2 ^ 32 - 3 \<and> c_sub INT32 5 1 = Some (5 - 1) \<and>
   in_bounds 1 5 [Some 5, None, Some 1] \<and>
   kernel_returns
     (ArraySortIndices_Exec \<lparr>order = Descending, null_placement = AtStart\<rparr> INT32
        (IntegerData [Some 5, None, Some 1]) [9, 9, 9])
     (array_length (IntegerData [Some 5, None, Some 1])) [9, 9, 9]
     (sorted_output logical_type \<lparr>order = Descending, null_placement = AtStart\<rparr>
        (logical_rows (IntegerData [Some 5, None, Some 1]))) \<and>
   sorter_returns
     (ArrayCountSorter_of INT32 1 5 [0..<length [Some (5::int), None, Some 1]]
        [Some 5, None, Some 1] 0 \<lparr>order = Descending, null_placement = AtStart\<rparr>)
     (\<lambda>ix p. sorted_output ordered_type \<lparr>order = Descending, null_placement = AtStart\<rparr>
        [Some (5::int), None, Some 1] ix)"
proof -
  have h: "well_typed INT32 (IntegerData [Some 5, None, Some 1])"
    "(1::int) \<le> 5" "(5::int) - 1 < 2 ^ 32 - 3" "c_sub INT32 5 1 = Some (5 - 1)"
    "in_bounds 1 5 [Some 5, None, Some 1]"
    by (simp_all add: in_bounds_def GetPhysicalType_def is_integer_type_def c_type_min_def
        c_type_max_def c_sub_def is_signed_integer_type_def sizeof_c_type_def)
  from sort_indices_sorted_permutation[OF h,
      where options = "\<lparr>order = Descending, null_placement = AtStart\<rparr>" and out = "[9, 9, 9]"]
  show ?thesis using h by blast
qed

text \<open>
  In the order of the specification, where a NaN is greater than every number, the
  output is not always non-increasing for \<^verbatim>\<open>Descending\<close>: on \<open>[1.0, NaN]\<close> with the
  nulls at the end the kernel writes \<open>[0, 1]\<close>, the number before the NaN, where a
  non-increasing sequence is \<open>[1, 0]\<close>.
\<close>

theorem sort_indices_descending_nan_counterexample:
  "ArraySortIndices_Exec \<lparr>order = Descending, null_placement = AtEnd\<rparr> DOUBLE
       (FloatingData [Some (Fin 1), Some NaN]) [0, 0] = Some (OK, [0, 1]) \<and>
   \<not> spec_non_increasing [Some (Fin (1::real)), Some NaN] [0, 1] \<and>
   spec_non_increasing [Some (Fin (1::real)), Some NaN] [1, 0]"
  by (simp add: ArraySortIndices_Exec_def GetArraySorter_eq GetPhysicalType_def ArraySorter_def
      is_integer_type_def is_floating_type_def std_iota_def spec_non_increasing_def
      ArrayCompareSorter_def PartitionNulls_def PartitionNullsOnly_def PartitionNullLikes_def
      null_count_def NoNulls_def NullsAtEnd_def partition_range_def StablePartitioner_def
      floating_type_def GetView_def on_range_def std_stable_sort_def upt_rec)

section \<open>The null partition returned by the sorters\<close>

text \<open>
  C8: every sorter (the comparison sorter on floating-point and on ordered values, the
  counting sorter, the boolean counting sorter, the adaptive integer sorter and the
  null sorter), run on the index range of an array of length \<open>n\<close>, returns a
  \<^verbatim>\<open>NullPartitionResult\<close> whose null sub-range and non-null sub-range are adjacent
  intervals that together cover \<open>0..<n\<close>, the null sub-range coming first for
  \<^verbatim>\<open>AtStart\<close> and last for \<^verbatim>\<open>AtEnd\<close>.
\<close>

theorem sorters_return_partition_of_range:
  assumes "mn \<le> mx" and "mx - mn < 2 ^ 32 - 3" and "c_sub t mx mn = Some (mx - mn)"
    and "in_bounds mn mx vs" and "in_bounds lo hi ws" and "hi - lo < 2 ^ 64"
  shows "sorter_returns (ArrayCompareSorter floating_type [0..<length fs] fs 0 options)
           (\<lambda>ix p. partition_ok (null_placement options) (length fs) p) \<and>
         sorter_returns (ArrayCompareSorter ordered_type [0..<length bs] bs 0 options)
           (\<lambda>ix p. partition_ok (null_placement options) (length bs) p) \<and>
         sorter_returns (ArrayCountSorter_of t mn mx [0..<length vs] vs 0 options)
           (\<lambda>ix p. partition_ok (null_placement options) (length vs) p) \<and>
         sorter_returns (ArrayCountSorter_Boolean [0..<length flags] flags 0 options)
           (\<lambda>ix p. partition_ok (null_placement options) (length flags) p) \<and>
         sorter_returns (ArrayCountOrCompareSorter u [0..<length ws] ws 0 options)
           (\<lambda>ix p. partition_ok (null_placement options) (length ws) p) \<and>
         sorter_returns (ArrayNullSorter [0..<n] 0 options)
           (\<lambda>ix p. partition_ok (null_placement options) n p)"
proof -
  have a: "sorter_returns (ArrayCompareSorter floating_type [0..<length fs] fs 0 options)
           (\<lambda>ix p. partition_ok (null_placement options) (length fs) p)"
    by (rule sorter_returnsI[OF compare_sorter_floating_result[of fs options]])
       (rule expected_partition_ok)
  have b: "sorter_returns (ArrayCompareSorter ordered_type [0..<length bs] bs 0 options)
           (\<lambda>ix p. partition_ok (null_placement options) (length bs) p)"
    by (rule sorter_returnsI[OF compare_sorter_ordered_result[of bs options]])
       (rule expected_partition_ok)
  have c: "sorter_returns (ArrayCountSorter_of t mn mx [0..<length vs] vs 0 options)
           (\<lambda>ix p. partition_ok (null_placement options) (length vs) p)"
    by (rule sorter_returnsI[OF ArrayCountSorter_of_result[OF assms(1,2,3,4), of options]])
       (rule expected_partition_ok)
  have d: "sorter_returns (ArrayCountSorter_Boolean [0..<length flags] flags 0 options)
           (\<lambda>ix p. partition_ok (null_placement options) (length flags) p)"
    by (rule sorter_returnsI[OF ArrayCountSorter_Boolean_result[of flags options]])
       (rule expected_partition_ok)
  have e: "sorter_returns (ArrayCountOrCompareSorter u [0..<length ws] ws 0 options)
           (\<lambda>ix p. partition_ok (null_placement options) (length ws) p)"
    by (rule sorter_returnsI[OF ArrayCountOrCompareSorter_result[OF assms(5,6), of u options]])
       (rule expected_partition_ok)
  have f: "sorter_returns (ArrayNullSorter [0..<n] 0 options)
           (\<lambda>ix p. partition_ok (null_placement options) n p)"
    by (simp add: sorter_returns_def ArrayNullSorter_def partition_ok_def NullsOnly_def)
  show ?thesis using a b c d e f by blast
qed

theorem sorters_return_partition_of_range_witness:
  "(1::int) \<le> 5 \<and> (5::int) - 1 < 2 ^ 32 - 3 \<and> c_sub INT32 5 1 = Some (5 - 1) \<and>
   in_bounds 1 5 [Some 5, None, Some 1] \<and>
   in_bounds (- (2 ^ 31)) (2 ^ 31 - 1) [Some 5, None, Some 1] \<and>
   (2 ^ 31 - 1 :: int) - (- (2 ^ 31)) < 2 ^ 64 \<and>
   sorter_returns
     (ArrayCountSorter_of INT32 1 5 [0..<length [Some (5::int), None, Some 1]]
        [Some 5, None, Some 1] 0 \<lparr>order = Ascending, null_placement = AtStart\<rparr>)
     (\<lambda>ix p. partition_ok (null_placement \<lparr>order = Ascending, null_placement = AtStart\<rparr>)
        (length [Some (5::int), None, Some 1]) p) \<and>
   sorter_returns
     (ArrayCountOrCompareSorter INT32 [0..<length [Some (5::int), None, Some 1]]
        [Some 5, None, Some 1] 0 \<lparr>order = Ascending, null_placement = AtStart\<rparr>)
     (\<lambda>ix p. partition_ok (null_placement \<lparr>order = Ascending, null_placement = AtStart\<rparr>)
        (length [Some (5::int), None, Some 1]) p)"
proof -
  have h: "(1::int) \<le> 5" "(5::int) - 1 < 2 ^ 32 - 3" "c_sub INT32 5 1 = Some (5 - 1)"
    "in_bounds 1 5 [Some 5, None, Some 1]"
    "in_bounds (- (2 ^ 31)) (2 ^ 31 - 1) [Some 5, None, Some 1]"
    "(2 ^ 31 - 1 :: int) - (- (2 ^ 31)) < 2 ^ 64"
    by (simp_all add: in_bounds_def c_sub_def is_signed_integer_type_def sizeof_c_type_def)
  from sorters_return_partition_of_range[OF h,
      where options = "\<lparr>order = Ascending, null_placement = AtStart\<rparr>" and u = INT32]
  show ?thesis using h by blast
qed

section \<open>The adaptive integer sorter\<close>

text \<open>
  C6, as the code has it: on an integer array whose values fit 64 bits,
  \<^verbatim>\<open>ArrayCountOrCompareSorter\<close> runs the counting sorter, set to the minimum and the
  maximum of the non-null values, exactly when the length of the array, nulls included,
  is at least 1024, the array holds at least one non-null value and the maximum minus
  the minimum is at most 4096; in every other case it runs the comparison sorter.
\<close>

theorem adaptive_sorter_policy:
  assumes "in_bounds lo hi vs" and "hi - lo < 2 ^ 64"
  shows "choose_sorter vs =
           (if 1024 \<le> length vs \<and> null_count vs < length vs \<and>
               Max {v. Some v \<in> set vs} - Min {v. Some v \<in> set vs} \<le> 4096
            then UseCountSorter (Min {v. Some v \<in> set vs}) (Max {v. Some v \<in> set vs})
            else UseCompareSorter) \<and>
         ArrayCountOrCompareSorter t indices vs offset options =
           (case choose_sorter vs of
              UseCountSorter mn mx \<Rightarrow> ArrayCountSorter_of t mn mx indices vs offset options
            | UseCompareSorter \<Rightarrow> ArrayCompareSorter ordered_type indices vs offset options)"
  using choose_sorter_policy[OF assms] by (simp add: ArrayCountOrCompareSorter_def)

theorem adaptive_sorter_policy_witness:
  "in_bounds 0 10 (replicate 1023 None @ [Some 7]) \<and> (10::int) - 0 < 2 ^ 64 \<and>
   choose_sorter (replicate 1023 None @ [Some 7]) =
     (if 1024 \<le> length (replicate 1023 None @ [Some (7::int)]) \<and>
         null_count (replicate 1023 None @ [Some (7::int)]) < length (replicate 1023 None @ [Some (7::int)]) \<and>
         Max {v. Some v \<in> set (replicate 1023 None @ [Some (7::int)])}
           - Min {v. Some v \<in> set (replicate 1023 None @ [Some (7::int)])} \<le> 4096
      then UseCountSorter (Min {v. Some v \<in> set (replicate 1023 None @ [Some (7::int)])})
             (Max {v. Some v \<in> set (replicate 1023 None @ [Some (7::int)])})
      else UseCompareSorter)"
proof -
  have h: "in_bounds 0 10 (replicate 1023 None @ [Some 7])" "(10::int) - 0 < 2 ^ 64"
    by (simp_all add: in_bounds_def list_all_iff)
  from adaptive_sorter_policy[OF h]
  show ?thesis using h by blast
qed

text \<open>
  The threshold is not on the number of non-null values: an array of 1023 nulls and
  the single value 7 holds one non-null value and is sorted by the counting sorter.
\<close>

theorem adaptive_sorter_counts_nulls_in_length_counterexample:
  "length (replicate 1023 None @ [Some (7::int)]) - null_count (replicate 1023 None @ [Some (7::int)]) < 1024 \<and>
   choose_sorter (replicate 1023 None @ [Some 7]) = UseCountSorter 7 7"
  by (simp add: choose_sorter_def countsort_min_len_def countsort_max_range_def null_count_def
      GetMinMax_def sub_uint64_def cast_uint64_def)

section \<open>Nulls and NaNs\<close>




section \<open>Types without a sorter\<close>

text \<open>
  C9: for a type \<open>t\<close> with no specialisation of \<^verbatim>\<open>ArraySorter\<close> (the nested types, and
  the temporal types when they are not mapped to their physical type),
  \<^verbatim>\<open>GetArraySorter\<close> returns the \<^verbatim>\<open>TypeError\<close> "Sorting not supported for type" followed
  by the name of the type, and the kernel returns that status with the output buffer as
  it was handed in. For a type \<open>u\<close> with a specialisation, \<^verbatim>\<open>GetArraySorter\<close> returns
  that one sorter.
\<close>

theorem unsupported_type_is_reported:
  assumes "ArraySorter t = None" and "ArraySorter (GetPhysicalType ty) = None"
    and "ArraySorter u = Some s"
  shows "GetArraySorter t = Inl (TypeError (''Sorting not supported for type '' @ ToString t)) \<and>
         ArraySortIndices_Exec options ty arr out =
           Some (TypeError (''Sorting not supported for type '' @ ToString (GetPhysicalType ty)), out) \<and>
         GetArraySorter u = Inr (Some s) \<and>
         t \<in> set [DATE32, DATE64, TIMESTAMP, TIME32, TIME64, INTERVAL_MONTHS, INTERVAL_DAY_TIME,
              LIST, STRUCT, SPARSE_UNION, DENSE_UNION, DICTIONARY, MAP, EXTENSION, FIXED_SIZE_LIST,
              DURATION, LARGE_LIST]"
  using assms Exec_unsupported[OF assms(2), of options arr out] unsupported_types[of t]
  by (simp add: GetArraySorter_eq)

theorem unsupported_type_is_reported_witness:
  "ArraySorter STRUCT = None \<and> ArraySorter (GetPhysicalType STRUCT) = None \<and>
   ArraySorter INT32 = Some (CountOrCompareSorter INT32) \<and>
   GetArraySorter STRUCT = Inl (TypeError ''Sorting not supported for type struct'') \<and>
   ArraySortIndices_Exec \<lparr>order = Ascending, null_placement = AtEnd\<rparr> STRUCT (NestedData 3) [7, 7, 7] =
     Some (TypeError ''Sorting not supported for type struct'', [7, 7, 7]) \<and>
   GetArraySorter INT32 = Inr (Some (CountOrCompareSorter INT32))"
proof -
  have h: "ArraySorter STRUCT = None" "ArraySorter (GetPhysicalType STRUCT) = None"
    "ArraySorter INT32 = Some (CountOrCompareSorter INT32)"
    by (simp_all add: ArraySorter_def GetPhysicalType_def is_integer_type_def sizeof_c_type_def
        is_floating_type_def is_base_binary_type_def is_fixed_size_binary_type_def)
  from unsupported_type_is_reported[OF h,
      of "\<lparr>order = Ascending, null_placement = AtEnd\<rparr>" "NestedData 3" "[7, 7, 7]"]
  show ?thesis using h by (simp add: GetPhysicalType_def)
qed

section \<open>The partition kernel\<close>

text \<open>
  C3, as the code has it: take a partitioner and a selection algorithm with the
  guarantees of \<^verbatim>\<open>std::partition\<close> and \<^verbatim>\<open>std::nth_element\<close>, and a pivot \<open>p\<close> with
  \<open>0 \<le> p < N\<close>. For an array of values of an ordered type, for a floating-point array
  and for an array of the null type, \<^verbatim>\<open>partition_nth_indices\<close> returns \<^verbatim>\<open>Status::OK\<close>
  with a permutation of \<open>0..<N\<close> in the first \<open>N\<close> slots of the output buffer; every row
  referenced at a position up to \<open>p\<close> comes before or ties with the row referenced at
  \<open>p\<close>, and every row referenced from \<open>p\<close> on comes after or ties with it, in the output
  order of the ascending sort under the null placement of the kernel (values, NaNs,
  nulls for \<^verbatim>\<open>AtEnd\<close>; nulls, NaNs, values for \<^verbatim>\<open>AtStart\<close>). For both kinds of array the
  selection algorithm is applied, to the non-null sub-range, exactly when
  \<open>non_nulls_begin \<le> p < non_nulls_end\<close>; otherwise the buffer stays as
  \<^verbatim>\<open>PartitionNulls\<close> left it.
\<close>

theorem partition_nth_partitions_around_pivot:
  fixes vs :: "'v::linorder Array" and fs :: "'a::linorder flt Array"
  assumes "partitioner_ok part" and "nth_element_ok sel"
    and "0 \<le> pivot options"
    and "pivot options < int (length vs)" and "pivot options < int (length fs)"
    and "pivot options < int n"
  shows "kernel_returns (Some (PartitionNthToIndices_Exec part sel ordered_type (Some options) vs out))
           (length vs) out
           (partitioned_at ordered_type (nth_null_placement options) vs (nat (pivot options))) \<and>
         kernel_returns (Some (PartitionNthToIndices_Exec part sel floating_type (Some options) fs out))
           (length fs) out
           (partitioned_at floating_type (nth_null_placement options) fs (nat (pivot options))) \<and>
         kernel_returns (Some (PartitionNthToIndices_Null_Exec (Some options) n out)) n out
           (partitioned_at floating_type (nth_null_placement options) (replicate n None)
              (nat (pivot options))) \<and>
         PartitionNthToIndices_Exec part sel ordered_type (Some options) vs out =
           (OK,
            (if int (non_nulls_begin (expected_partition (nth_null_placement options)
                       (length (value_rows ordered_type vs)) (length vs))) \<le> pivot options \<and>
                pivot options < int (non_nulls_end (expected_partition (nth_null_placement options)
                       (length (value_rows ordered_type vs)) (length vs)))
             then on_range
                    (non_nulls_begin (expected_partition (nth_null_placement options)
                       (length (value_rows ordered_type vs)) (length vs)))
                    (non_nulls_end (expected_partition (nth_null_placement options)
                       (length (value_rows ordered_type vs)) (length vs)))
                    (\<lambda>seg. sel (\<lambda>left right.
                               value_less ordered_type (GetView vs left) (GetView vs right)) seg
                       (nat (pivot options) -
                        non_nulls_begin (expected_partition (nth_null_placement options)
                          (length (value_rows ordered_type vs)) (length vs))))
                    (fst (PartitionNulls part ordered_type [0..<length vs] vs 0
                            (nth_null_placement options)))
             else fst (PartitionNulls part ordered_type [0..<length vs] vs 0
                         (nth_null_placement options)))
            @ drop (length vs) out) \<and>
         PartitionNthToIndices_Exec part sel floating_type (Some options) fs out =
           (OK,
            (if int (non_nulls_begin (expected_partition (nth_null_placement options)
                       (length (value_rows floating_type fs)) (length fs))) \<le> pivot options \<and>
                pivot options < int (non_nulls_end (expected_partition (nth_null_placement options)
                       (length (value_rows floating_type fs)) (length fs)))
             then on_range
                    (non_nulls_begin (expected_partition (nth_null_placement options)
                       (length (value_rows floating_type fs)) (length fs)))
                    (non_nulls_end (expected_partition (nth_null_placement options)
                       (length (value_rows floating_type fs)) (length fs)))
                    (\<lambda>seg. sel (\<lambda>left right.
                               value_less floating_type (GetView fs left) (GetView fs right)) seg
                       (nat (pivot options) -
                        non_nulls_begin (expected_partition (nth_null_placement options)
                          (length (value_rows floating_type fs)) (length fs))))
                    (fst (PartitionNulls part floating_type [0..<length fs] fs 0
                            (nth_null_placement options)))
             else fst (PartitionNulls part floating_type [0..<length fs] fs 0
                         (nth_null_placement options)))
            @ drop (length fs) out)"
proof -
  have a: "kernel_returns (Some (PartitionNthToIndices_Exec part sel ordered_type (Some options) vs out))
           (length vs) out
           (partitioned_at ordered_type (nth_null_placement options) vs (nat (pivot options)))"
    by (rule kernel_returns_mono[OF partition_nth_returns[where key=id and T=ordered_type,
            OF _ assms(1,2,3,4)]])
       (simp_all add: ordered_type_def)
  have b: "kernel_returns (Some (PartitionNthToIndices_Exec part sel floating_type (Some options) fs out))
           (length fs) out
           (partitioned_at floating_type (nth_null_placement options) fs (nat (pivot options)))"
    by (rule kernel_returns_mono[OF partition_nth_returns[where key=fin_value and T=floating_type,
            OF _ assms(1,2,3,5)]])
       (simp_all add: floating_type_key)
  have pv: "nat (pivot options) < n" using assms(3,6) by simp
  have c: "kernel_returns (Some (PartitionNthToIndices_Null_Exec (Some options) n out)) n out
           (partitioned_at floating_type (nth_null_placement options) (replicate n None)
              (nat (pivot options)))"
    using partition_nth_null_rows[OF pv, of floating_type "nth_null_placement options"]
    by (simp add: kernel_returns_def PartitionNthToIndices_Null_Exec_def std_iota_def)
  note d = partition_nth_steps[OF assms(1,4), of sel ordered_type out]
  note e = partition_nth_steps[OF assms(1,5), of sel floating_type out]
  show ?thesis using a b c d e by blast
qed

theorem partition_nth_partitions_around_pivot_witness:
  "partitioner_ok StablePartitioner \<and>
   nth_element_ok (\<lambda>cmp xs n. std_stable_sort cmp xs) \<and>
   0 \<le> pivot \<lparr>pivot = 1, nth_null_placement = AtEnd\<rparr> \<and>
   pivot \<lparr>pivot = 1, nth_null_placement = AtEnd\<rparr> < int (length [Some (5::int), None, Some 1]) \<and>
   pivot \<lparr>pivot = 1, nth_null_placement = AtEnd\<rparr>
     < int (length [Some (Fin (1::int)), Some NaN, None, Some (Fin 0)]) \<and>
   pivot \<lparr>pivot = 1, nth_null_placement = AtEnd\<rparr> < int 2 \<and>
   kernel_returns
     (Some (PartitionNthToIndices_Exec StablePartitioner (\<lambda>cmp xs n. std_stable_sort cmp xs)
              ordered_type (Some \<lparr>pivot = 1, nth_null_placement = AtEnd\<rparr>)
              [Some (5::int), None, Some 1] [9, 9, 9, 9]))
     (length [Some (5::int), None, Some 1]) [9, 9, 9, 9]
     (partitioned_at ordered_type (nth_null_placement \<lparr>pivot = 1, nth_null_placement = AtEnd\<rparr>)
        [Some (5::int), None, Some 1] (nat (pivot \<lparr>pivot = 1, nth_null_placement = AtEnd\<rparr>))) \<and>
   kernel_returns
     (Some (PartitionNthToIndices_Exec StablePartitioner (\<lambda>cmp xs n. std_stable_sort cmp xs)
              floating_type (Some \<lparr>pivot = 1, nth_null_placement = AtEnd\<rparr>)
              [Some (Fin (1::int)), Some NaN, None, Some (Fin 0)] [9, 9, 9, 9]))
     (length [Some (Fin (1::int)), Some NaN, None, Some (Fin 0)]) [9, 9, 9, 9]
     (partitioned_at floating_type (nth_null_placement \<lparr>pivot = 1, nth_null_placement = AtEnd\<rparr>)
        [Some (Fin (1::int)), Some NaN, None, Some (Fin 0)]
        (nat (pivot \<lparr>pivot = 1, nth_null_placement = AtEnd\<rparr>)))"
proof -
  have h: "partitioner_ok StablePartitioner"
    "nth_element_ok (\<lambda>cmp xs n. std_stable_sort cmp xs)"
    "0 \<le> pivot \<lparr>pivot = 1, nth_null_placement = AtEnd\<rparr>"
    "pivot \<lparr>pivot = 1, nth_null_placement = AtEnd\<rparr> < int (length [Some (5::int), None, Some 1])"
    "pivot \<lparr>pivot = 1, nth_null_placement = AtEnd\<rparr>
       < int (length [Some (Fin (1::int)), Some NaN, None, Some (Fin 0)])"
    "pivot \<lparr>pivot = 1, nth_null_placement = AtEnd\<rparr> < int 2"
    by (simp_all add: partitioner_ok_Stable nth_element_ok_sort)
  from partition_nth_partitions_around_pivot[OF h, of "[9, 9, 9, 9]"]
  show ?thesis using h by blast
qed

text \<open>
  In the order of the specification, where a NaN is greater than every number, a row
  before the pivot position can be greater than the row at it: on \<open>[1.0, NaN]\<close> with
  the nulls at the start and pivot 1 the kernel writes \<open>[1, 0]\<close>, the NaN at position 0
  and the number at the pivot position (lemma \<open>partition_nth_nan_example\<close>: with every
  partitioner and selection algorithm that meet the guarantees).
\<close>

theorem partition_nth_nan_before_pivot_counterexample:
  "PartitionNthToIndices_Exec StablePartitioner (\<lambda>cmp xs n. std_stable_sort cmp xs) floating_type
       (Some \<lparr>pivot = 1, nth_null_placement = AtStart\<rparr>) [Some (Fin (1::real)), Some NaN] [0, 0]
     = (OK, [1, 0]) \<and>
   \<not> spec_less_eq ([Some (Fin (1::real)), Some NaN] ! ([1, 0] ! 0))
                    ([Some (Fin (1::real)), Some NaN] ! ([1, 0] ! 1))"
  by (simp add: PartitionNthToIndices_Exec_def std_iota_def
      PartitionNulls_def PartitionNullsOnly_def PartitionNullLikes_def
      null_count_def NoNulls_def NullsAtStart_def partition_range_def
      StablePartitioner_def floating_type_def GetView_def on_range_def std_stable_sort_def upt_rec)

end
